theory Spec2Isabelle
  imports Main "HOL-Library.Sublist" "HOL-Library.Multiset" "HOL-Library.Code_Target_Nat"
begin

section \<open>CombinedMemory-v2-SSE: the memory store of \<open>src/index.ts\<close>\<close>

text \<open>
  The theory embeds the persistence and search logic of class \<open>CombinedMemoryServer\<close>:
  \<open>addMemory\<close> (lines 92-136) and \<open>searchMemories\<close> (lines 138-205), together with the
  part of the key-value backend (DragonflyDB, spoken to through ioredis) that the two
  methods use: \<open>set\<close>, \<open>sadd\<close>, \<open>smembers\<close> and \<open>get\<close>.

  Conventions of the embedding.
  \<^item> JavaScript strings are \<open>string\<close>, a character being a code unit below 256;
    \<open>toLowerCase\<close> lowers the capital letters among these (A-Z and the Latin-1 capitals).
  \<^item> A \<open>Date\<close> is its time value in milliseconds since the epoch, or \<open>Invalid_Date\<close>
    (time value \<open>NaN\<close>).
  \<^item> Everything the methods take from their environment is an argument: the random
    draw, the clock, and for every backend command whether it fails.
  \<^item> Exceptions are values of type \<open>exn\<close>; a \<open>try\<close> block is a function that returns
    either its result or the exception it threw, and the state at that moment.
\<close>

subsection \<open>Data\<close>

datatype jsdate = Date int | Invalid_Date

text \<open>\<open>interface Memory\<close> (lines 10-15). The field \<open>id\<close> is called \<open>id'\<close> here.\<close>

record memory =
  id' :: string
  content :: string
  userId :: string
  timestamp :: jsdate

datatype exn =
    ZodError          \<comment> \<open>\<open>schema.parse\<close> rejects the arguments\<close>
  | BackendError      \<comment> \<open>a backend command fails: connection, timeout\<close>
  | WrongTypeError    \<comment> \<open>the backend's WRONGTYPE reply\<close>
  | SyntaxError       \<comment> \<open>\<open>JSON.parse\<close>\<close>
  | TypeError         \<comment> \<open>property access on a value that has no such property\<close>
  | RangeError        \<comment> \<open>\<open>toISOString\<close> of an invalid date\<close>

text \<open>
  A string value held by the backend. The code does three things with such a value
  (lines 157-162): it tests it for truthiness, hands it to \<open>JSON.parse\<close>, and reads
  \<open>timestamp\<close> and \<open>content\<close> of the parsed value. The model keeps of a stored text
  what these observations can tell:
  \<^item> \<open>Blank\<close>: the empty string, falsy at \<open>if (memoryData)\<close>;
  \<^item> \<open>Not_JSON\<close>: a non-empty text on which \<open>JSON.parse\<close> throws;
  \<^item> \<open>Not_Memory\<close>: JSON text of a value on which line 159 or line 162 throws
    (\<open>null\<close>, a number, an object whose \<open>content\<close> is no string);
  \<^item> \<open>Memory_JSON m\<close>: JSON text of an object with a string \<open>content\<close>; \<open>timestamp m\<close>
    is the date that \<open>new Date(memory.timestamp)\<close> makes of its \<open>timestamp\<close>.
  \<open>JSON.stringify\<close> of lines 110-115 writes the fourth kind, and \<open>JSON.parse\<close> gives the
  same four fields back, the ISO-8601 text of the timestamp read back as the same date.
\<close>

datatype stored = Blank | Not_JSON | Not_Memory | Memory_JSON memory

text \<open>
  The backend has one key space; a key holds a string or a set. The members of a set
  are kept as a list, in the order \<open>smembers\<close> enumerates them.
\<close>

datatype rvalue = RString stored | RSet "string list"

type_synonym db = "string \<Rightarrow> rvalue option"

text \<open>
  The state of the server: \<open>this.memories\<close> (line 19), the in-process Fallback Store, and
  the contents of the backend behind \<open>this.redis\<close>, the Primary Store.
\<close>

record server =
  memories :: "memory list"
  redis :: db

definition init :: server where
  "init = \<lparr>memories = [], redis = Map.empty\<rparr>"

subsection \<open>Strings, numbers and dates of the language\<close>

definition lower_char :: "char \<Rightarrow> char" where
  "lower_char c =
     (let n = (of_char c :: nat)
      in if (65 \<le> n \<and> n \<le> 90) \<or> (192 \<le> n \<and> n \<le> 222 \<and> n \<noteq> 215) then char_of (n + 32)
         else c)"

definition toLowerCase :: "string \<Rightarrow> string" where
  "toLowerCase s = map lower_char s"

definition includes_str :: "string \<Rightarrow> string \<Rightarrow> bool" where
  "includes_str s q = sublist q s"

text \<open>\<open>s.substring(from, to)\<close>, for \<open>from \<le> to\<close> as at both call sites.\<close>

definition substring :: "nat \<Rightarrow> nat \<Rightarrow> string \<Rightarrow> string" where
  "substring from to s = take (to - from) (drop from s)"

definition join :: "string \<Rightarrow> string list \<Rightarrow> string" where
  "join sep xs = (case xs of [] \<Rightarrow> [] | y # ys \<Rightarrow> y @ concat (map (\<lambda>z. sep @ z) ys))"

definition base36 :: string where
  "base36 = ''0123456789abcdefghijklmnopqrstuvwxyz''"

definition digit :: "nat \<Rightarrow> char" where
  "digit d = base36 ! (d mod 36)"

fun decimal :: "nat \<Rightarrow> string" where
  "decimal n = (if n < 10 then [digit n] else decimal (n div 10) @ [digit (n mod 10)])"

declare decimal.simps [simp del]

definition pad :: "nat \<Rightarrow> nat \<Rightarrow> string" where
  "pad w n = replicate (w - length (decimal n)) CHR ''0'' @ decimal n"

text \<open>
  \<open>Date.prototype.toISOString\<close>: \<open>YYYY-MM-DDTHH:mm:ss.sssZ\<close> in UTC, the year with a sign
  and six digits outside 0..9999. The day count is turned into a civil date era by era
  (an era is 400 years, 146097 days, and starts on a 1 March).
\<close>

definition civil :: "int \<Rightarrow> int \<times> nat \<times> nat" where
  "civil days =
     (let z = days + 719468;
          era = z div 146097;
          doe = z - era * 146097;
          yoe = (doe - doe div 1460 + doe div 36524 - doe div 146096) div 365;
          doy = doe - (365 * yoe + yoe div 4 - yoe div 100);
          mp = (5 * doy + 2) div 153;
          d = doy - (153 * mp + 2) div 5 + 1;
          m = (if mp < 10 then mp + 3 else mp - 9);
          y = yoe + era * 400 + (if m \<le> 2 then 1 else 0)
      in (y, nat m, nat d))"

definition year_text :: "int \<Rightarrow> string" where
  "year_text y =
     (if 0 \<le> y \<and> y \<le> 9999 then pad 4 (nat y)
      else (if y < 0 then ''-'' else ''+'') @ pad 6 (nat \<bar>y\<bar>))"

definition toISOString :: "jsdate \<Rightarrow> exn + string" where
  "toISOString dt =
     (case dt of
        Invalid_Date \<Rightarrow> Inl RangeError
      | Date t \<Rightarrow>
          (let (y, m, d) = civil (t div 86400000);
               r = nat (t mod 86400000)
           in Inr (year_text y @ ''-'' @ pad 2 m @ ''-'' @ pad 2 d @ ''T''
                   @ pad 2 (r div 3600000) @ '':'' @ pad 2 (r div 60000 mod 60) @ '':''
                   @ pad 2 (r div 1000 mod 60) @ ''.'' @ pad 3 (r mod 1000) @ ''Z'')))"

text \<open>\<open>s.split('T')[0]\<close>: the text before the first \<open>T\<close>.\<close>

definition split_T_0 :: "string \<Rightarrow> string" where
  "split_T_0 s = takeWhile (\<lambda>c. c \<noteq> CHR ''T'') s"

text \<open>\<open>getTime\<close>; \<open>None\<close> is \<open>NaN\<close>.\<close>

definition getTime :: "jsdate \<Rightarrow> int option" where
  "getTime dt = (case dt of Date t \<Rightarrow> Some t | Invalid_Date \<Rightarrow> None)"

text \<open>
  \<open>Math.random().toString(36)\<close>. \<open>Math.random()\<close> is a double in [0, 1); radix 36 renders
  it as \<open>0\<close> when it is zero and otherwise as \<open>0.\<close> followed by the base-36 digits of the
  fraction, at least one. The draw is given by these digits: the empty list is the draw
  0, and \<open>[18]\<close> is the draw 0.5 = 18/36.
\<close>

definition toString36 :: "nat list \<Rightarrow> string" where
  "toString36 ds = (if ds = [] then ''0'' else ''0.'' @ map digit ds)"

subsection \<open>Argument validation (zod)\<close>

text \<open>
  An argument as the caller passes it: absent (\<open>undefined\<close>), a string, or a value of
  any other type. \<open>z.string()\<close> accepts strings only, the empty string included;
  \<open>.default(d)\<close> replaces \<open>undefined\<close>, and nothing else, by \<open>d\<close>.
\<close>

datatype arg = Absent | Given string | Not_A_String

definition z_string :: "arg \<Rightarrow> exn + string" where
  "z_string a = (case a of Given s \<Rightarrow> Inr s | _ \<Rightarrow> Inl ZodError)"

definition z_string_default :: "string \<Rightarrow> arg \<Rightarrow> exn + string" where
  "z_string_default d a =
     (case a of Absent \<Rightarrow> Inr d | Given s \<Rightarrow> Inr s | Not_A_String \<Rightarrow> Inl ZodError)"

text \<open>
  \<open>schema.parse(args)\<close> of lines 93-98 and of lines 139-144: an object of one required
  string and of \<open>userId\<close> with its default.
\<close>

definition schema_parse :: "arg \<Rightarrow> arg \<Rightarrow> exn + (string \<times> string)" where
  "schema_parse a u =
     (case z_string a of
        Inl e \<Rightarrow> Inl e
      | Inr x \<Rightarrow> (case z_string_default ''quinn_may'' u of
                   Inl e \<Rightarrow> Inl e
                 | Inr y \<Rightarrow> Inr (x, y)))"

subsection \<open>The backend commands\<close>

text \<open>
  Each command takes a flag saying whether it fails (connection lost, timeout); a
  command that fails leaves the backend as it was. \<open>SET\<close> overwrites whatever the key
  holds; the other three answer WRONGTYPE on a key of the other kind.
\<close>

definition redis_set :: "bool \<Rightarrow> string \<Rightarrow> stored \<Rightarrow> db \<Rightarrow> (exn + unit) \<times> db" where
  "redis_set fails key v d =
     (if fails then (Inl BackendError, d) else (Inr (), d(key \<mapsto> RString v)))"

definition redis_sadd :: "bool \<Rightarrow> string \<Rightarrow> string \<Rightarrow> db \<Rightarrow> (exn + unit) \<times> db" where
  "redis_sadd fails key member d =
     (if fails then (Inl BackendError, d)
      else case d key of
             None \<Rightarrow> (Inr (), d(key \<mapsto> RSet [member]))
           | Some (RSet ms) \<Rightarrow>
               (if member \<in> set ms then (Inr (), d) else (Inr (), d(key \<mapsto> RSet (ms @ [member]))))
           | Some (RString v) \<Rightarrow> (Inl WrongTypeError, d))"

definition redis_smembers :: "bool \<Rightarrow> string \<Rightarrow> db \<Rightarrow> (exn + string list) \<times> db" where
  "redis_smembers fails key d =
     (if fails then (Inl BackendError, d)
      else case d key of
             None \<Rightarrow> (Inr [], d)
           | Some (RSet ms) \<Rightarrow> (Inr ms, d)
           | Some (RString v) \<Rightarrow> (Inl WrongTypeError, d))"

definition redis_get :: "bool \<Rightarrow> string \<Rightarrow> db \<Rightarrow> (exn + stored option) \<times> db" where
  "redis_get fails key d =
     (if fails then (Inl BackendError, d)
      else case d key of
             None \<Rightarrow> (Inr None, d)
           | Some (RString v) \<Rightarrow> (Inr (Some v), d)
           | Some (RSet ms) \<Rightarrow> (Inl WrongTypeError, d))"

text \<open>The key layout: \<open>memory:<userId>:<id>\<close> and \<open>search:<userId>\<close>.\<close>

definition memoryKey :: "string \<Rightarrow> string \<Rightarrow> string" where
  "memoryKey u i = ''memory:'' @ u @ '':'' @ i"

definition userSearchKey :: "string \<Rightarrow> string" where
  "userSearchKey u = ''search:'' @ u"

subsection \<open>Serialisation\<close>

text \<open>Lines 110-115: \<open>JSON.stringify\<close> of the four fields.\<close>

definition JSON_stringify :: "memory \<Rightarrow> stored" where
  "JSON_stringify m =
     Memory_JSON \<lparr>id' = id' m, content = content m, userId = userId m, timestamp = timestamp m\<rparr>"

text \<open>
  Lines 158-162 on a truthy text: \<open>JSON.parse\<close>, the assignment to \<open>memory.timestamp\<close>
  and the read of \<open>memory.content\<close>.
\<close>

definition JSON_parse :: "stored \<Rightarrow> exn + memory" where
  "JSON_parse v =
     (case v of
        Blank \<Rightarrow> Inl SyntaxError
      | Not_JSON \<Rightarrow> Inl SyntaxError
      | Not_Memory \<Rightarrow> Inl TypeError
      | Memory_JSON m \<Rightarrow> Inr m)"

subsection \<open>add-memory\<close>

text \<open>Lines 100-105. \<open>rnd\<close> is the random draw and \<open>now\<close> the clock.\<close>

definition newMemory :: "nat list \<Rightarrow> int \<Rightarrow> string \<Rightarrow> string \<Rightarrow> memory" where
  "newMemory rnd now c u =
     \<lparr>id' = substring 2 15 (toString36 rnd), content = c, userId = u, timestamp = Date now\<rparr>"

text \<open>
  The \<open>try\<close> block, lines 108-123. \<open>fails k\<close> says whether the \<open>k\<close>-th backend command
  of the call fails. The result is the exception thrown, if any, and the backend as
  the block leaves it.
\<close>

definition storeInDragonfly :: "(nat \<Rightarrow> bool) \<Rightarrow> memory \<Rightarrow> db \<Rightarrow> exn option \<times> db" where
  "storeInDragonfly fails m d =
     (case redis_set (fails 0) (memoryKey (userId m) (id' m)) (JSON_stringify m) d of
        (Inl e, d1) \<Rightarrow> (Some e, d1)
      | (Inr _, d1) \<Rightarrow>
          (case redis_sadd (fails 1) (userSearchKey (userId m)) (id' m) d1 of
             (Inl e, d2) \<Rightarrow> (Some e, d2)
           | (Inr _, d2) \<Rightarrow> (None, d2)))"

text \<open>Line 133, the text of the reply.\<close>

definition added_text :: "string \<Rightarrow> string \<Rightarrow> string" where
  "added_text u c =
     ''Memory added successfully for user '' @ u @ '': '' @ [CHR 0x22] @ substring 0 100 c
       @ (if length c > 100 then ''...'' else []) @ [CHR 0x22]"

definition addMemory ::
  "nat list \<Rightarrow> int \<Rightarrow> (nat \<Rightarrow> bool) \<Rightarrow> arg \<Rightarrow> arg \<Rightarrow> server \<Rightarrow> (exn + string) \<times> server" where
  "addMemory rnd now fails content_arg userId_arg s =
     (case schema_parse content_arg userId_arg of
        Inl e \<Rightarrow> (Inl e, s)
      | Inr (c, u) \<Rightarrow>
          (let m = newMemory rnd now c u in
           case storeInDragonfly fails m (redis s) of
             (None, d) \<Rightarrow> (Inr (added_text u c), s\<lparr>redis := d\<rparr>)
           | (Some e, d) \<Rightarrow> (Inr (added_text u c), \<lparr>memories = memories s @ [m], redis = d\<rparr>)))"

subsection \<open>search-memories\<close>

text \<open>
  The loop of lines 153-166 over the ids that \<open>smembers\<close> returned; \<open>k\<close> counts the
  backend commands of the call, \<open>acc\<close> is \<open>matchingMemories\<close>.
\<close>

fun scan ::
  "(nat \<Rightarrow> bool) \<Rightarrow> nat \<Rightarrow> string \<Rightarrow> string \<Rightarrow> string list \<Rightarrow> memory list \<Rightarrow> db
     \<Rightarrow> (exn + memory list) \<times> db" where
  "scan fails k u q [] acc d = (Inr acc, d)"
| "scan fails k u q (i # ids) acc d =
     (case redis_get (fails k) (memoryKey u i) d of
        (Inl e, d1) \<Rightarrow> (Inl e, d1)
      | (Inr None, d1) \<Rightarrow> scan fails (Suc k) u q ids acc d1
      | (Inr (Some v), d1) \<Rightarrow>
          (if v = Blank then scan fails (Suc k) u q ids acc d1
           else case JSON_parse v of
                  Inl e \<Rightarrow> (Inl e, d1)
                | Inr m \<Rightarrow>
                    (if includes_str (toLowerCase (content m)) q
                     then scan fails (Suc k) u q ids (acc @ [m]) d1
                     else scan fails (Suc k) u q ids acc d1)))"

text \<open>The \<open>try\<close> block, lines 149-168.\<close>

definition searchInDragonfly ::
  "(nat \<Rightarrow> bool) \<Rightarrow> string \<Rightarrow> string \<Rightarrow> db \<Rightarrow> (exn + memory list) \<times> db" where
  "searchInDragonfly fails u q d =
     (case redis_smembers (fails 0) (userSearchKey u) d of
        (Inl e, d1) \<Rightarrow> (Inl e, d1)
      | (Inr ids, d1) \<Rightarrow> scan fails 1 u q ids [] d1)"

text \<open>The \<open>catch\<close> block, lines 172-176.\<close>

definition searchFallback :: "string \<Rightarrow> string \<Rightarrow> memory list \<Rightarrow> memory list" where
  "searchFallback u q ms =
     filter (\<lambda>m. userId m = u \<and> includes_str (toLowerCase (content m)) q) ms"

text \<open>
  Line 180. The comparator is \<open>b.timestamp.getTime() - a.timestamp.getTime()\<close>; a \<open>NaN\<close>
  result counts as 0. \<open>Array.prototype.sort\<close> is stable: an element moves behind a
  later one only when the comparator puts it there, which is what inserting the
  elements from the right, each before the first one it does not sort after, does.
\<close>

definition compareFn :: "memory \<Rightarrow> memory \<Rightarrow> int" where
  "compareFn a b =
     (case (getTime (timestamp b), getTime (timestamp a)) of
        (Some tb, Some ta) \<Rightarrow> tb - ta
      | _ \<Rightarrow> 0)"

fun insert_by :: "('a \<Rightarrow> 'a \<Rightarrow> int) \<Rightarrow> 'a \<Rightarrow> 'a list \<Rightarrow> 'a list" where
  "insert_by cmp x [] = [x]"
| "insert_by cmp x (y # ys) = (if cmp x y > 0 then y # insert_by cmp x ys else x # y # ys)"

definition sort_by :: "('a \<Rightarrow> 'a \<Rightarrow> int) \<Rightarrow> 'a list \<Rightarrow> 'a list" where
  "sort_by cmp xs = foldr (insert_by cmp) xs []"

text \<open>
  Lines 146-177: \<open>matchingMemories\<close> as the \<open>try\<close> statement leaves it, from the Primary
  Store or, when the \<open>try\<close> block threw, from the Fallback Store.
\<close>

definition collectMatches ::
  "(nat \<Rightarrow> bool) \<Rightarrow> string \<Rightarrow> string \<Rightarrow> server \<Rightarrow> memory list \<times> server" where
  "collectMatches fails u q s =
     (case searchInDragonfly fails u q (redis s) of
        (Inr ms, d) \<Rightarrow> (ms, s\<lparr>redis := d\<rparr>)
      | (Inl e, d) \<Rightarrow> (searchFallback u q (memories s), s\<lparr>redis := d\<rparr>))"

text \<open>Lines 194-196: the line of a match; \<open>index\<close> counts from 0.\<close>

definition render :: "nat \<Rightarrow> memory \<Rightarrow> exn + string" where
  "render index m =
     (case toISOString (timestamp m) of
        Inl e \<Rightarrow> Inl e
      | Inr isoText \<Rightarrow> Inr (decimal (index + 1) @ ''. ['' @ split_T_0 isoText @ ''] '' @ content m))"

text \<open>\<open>.map\<close> with that callback: the first exception ends it.\<close>

fun render_from :: "nat \<Rightarrow> memory list \<Rightarrow> exn + string list" where
  "render_from index [] = Inr []"
| "render_from index (m # ms) =
     (case render index m of
        Inl e \<Rightarrow> Inl e
      | Inr l \<Rightarrow> (case render_from (Suc index) ms of
                   Inl e \<Rightarrow> Inl e
                 | Inr ls \<Rightarrow> Inr (l # ls)))"

definition not_found_text :: "string \<Rightarrow> string" where
  "not_found_text query = ''No memories found for query: '' @ [CHR 0x22] @ query @ [CHR 0x22]"

definition found_text :: "nat \<Rightarrow> string \<Rightarrow> string \<Rightarrow> string" where
  "found_text n query resultsText =
     ''Found '' @ decimal n @ '' matching memories for '' @ [CHR 0x22] @ query @ [CHR 0x22]
       @ '':'' @ [CHR 0x0A, CHR 0x0A] @ resultsText"

text \<open>Lines 183-204.\<close>

definition format_results :: "string \<Rightarrow> memory list \<Rightarrow> exn + string" where
  "format_results query ms =
     (if length ms = 0 then Inr (not_found_text query)
      else case render_from 0 (take 10 ms) of
             Inl e \<Rightarrow> Inl e
           | Inr ls \<Rightarrow> Inr (found_text (length ms) query (join [CHR 0x0A, CHR 0x0A] ls)))"

text \<open>\<open>searchMemories\<close>, lines 138-205.\<close>

definition searchMemories ::
  "(nat \<Rightarrow> bool) \<Rightarrow> arg \<Rightarrow> arg \<Rightarrow> server \<Rightarrow> (exn + string) \<times> server" where
  "searchMemories fails query_arg userId_arg s =
     (case schema_parse query_arg userId_arg of
        Inl e \<Rightarrow> (Inl e, s)
      | Inr (query, u) \<Rightarrow>
          (let queryLower = toLowerCase query;
               (matchingMemories, s1) = collectMatches fails u queryLower s;
               sorted = sort_by compareFn matchingMemories
           in (format_results query sorted, s1)))"

subsection \<open>Notions used in the statements\<close>

text \<open>
  Three fault schedules: the backend answers every command, the backend fails every
  command (the Primary Store forced to fail), and only the \<open>n\<close>-th command of the call
  fails.
\<close>

definition healthy :: "nat \<Rightarrow> bool" where
  "healthy k = False"

definition unreachable :: "nat \<Rightarrow> bool" where
  "unreachable k = True"

definition fails_at :: "nat \<Rightarrow> nat \<Rightarrow> bool" where
  "fails_at n k = (k = n)"

text \<open>The time value of a memory whose date is valid, and the lists of such memories.\<close>

definition time_value :: "memory \<Rightarrow> int" where
  "time_value m = (case timestamp m of Date t \<Rightarrow> t | Invalid_Date \<Rightarrow> 0)"

definition valid_dates :: "memory list \<Rightarrow> bool" where
  "valid_dates ms = list_all (\<lambda>m. timestamp m \<noteq> Invalid_Date) ms"

text \<open>
  \<open>matchingMemories\<close> after line 180, for the query and the userId that \<open>schema.parse\<close>
  returned: the matches of a search in the order in which the digest lists them.
\<close>

definition sortedMatches ::
  "(nat \<Rightarrow> bool) \<Rightarrow> string \<Rightarrow> string \<Rightarrow> server \<Rightarrow> memory list" where
  "sortedMatches fails query u s =
     sort_by compareFn (fst (collectMatches fails u (toLowerCase query) s))"

text \<open>
  Whether a key holds a string (on which \<open>sadd\<close> and \<open>smembers\<close> answer WRONGTYPE), and
  the members of an index set once \<open>sadd\<close> has added \<open>i\<close> to it.
\<close>

definition holds_string :: "db \<Rightarrow> string \<Rightarrow> bool" where
  "holds_string d key = (case d key of Some (RString v) \<Rightarrow> True | _ \<Rightarrow> False)"

definition index_with :: "string \<Rightarrow> rvalue option \<Rightarrow> string list" where
  "index_with i v =
     (case v of Some (RSet ms) \<Rightarrow> (if i \<in> set ms then ms else ms @ [i]) | _ \<Rightarrow> [i])"

text \<open>
  Which store serves a call: the write is served by the Primary Store when the \<open>try\<close>
  block of \<open>addMemory\<close> ends without an exception, the search when the \<open>try\<close> block of
  \<open>searchMemories\<close> does; otherwise the Fallback Store serves it.
\<close>

definition write_on_primary :: "(nat \<Rightarrow> bool) \<Rightarrow> memory \<Rightarrow> db \<Rightarrow> bool" where
  "write_on_primary fails m d = (fst (storeInDragonfly fails m d) = None)"

definition search_on_primary :: "(nat \<Rightarrow> bool) \<Rightarrow> string \<Rightarrow> string \<Rightarrow> db \<Rightarrow> bool" where
  "search_on_primary fails u q d =
     (case fst (searchInDragonfly fails u q d) of Inr ms \<Rightarrow> True | Inl e \<Rightarrow> False)"

text \<open>The date part of \<open>toISOString\<close>, which is what \<open>split('T')[0]\<close> keeps of it.\<close>

definition isoDate :: "int \<Rightarrow> string" where
  "isoDate t =
     (let (y, m, d) = civil (t div 86400000)
      in year_text y @ ''-'' @ pad 2 m @ ''-'' @ pad 2 d)"

text \<open>The line of the digest for the match at position \<open>i\<close>, counted from 0.\<close>

definition digest_line :: "nat \<Rightarrow> memory \<Rightarrow> string" where
  "digest_line i m =
     decimal (i + 1) @ ''. ['' @ isoDate (time_value m) @ ''] '' @ content m"

text \<open>The lines of the matches \<open>ms\<close>, the first one at position \<open>i\<close>.\<close>

fun digest_lines :: "nat \<Rightarrow> memory list \<Rightarrow> string list" where
  "digest_lines i [] = []"
| "digest_lines i (m # ms) = digest_line i m # digest_lines (Suc i) ms"

text \<open>
  The states the server can be in: it starts with both stores empty, serves calls under
  any fault schedule, and may restart, which empties the Fallback Store and keeps the
  Primary Store.
\<close>

inductive reachable :: "server \<Rightarrow> bool" where
  start: "reachable init"
| add: "reachable s \<Longrightarrow> reachable (snd (addMemory rnd now fails content_arg userId_arg s))"
| search: "reachable s \<Longrightarrow> reachable (snd (searchMemories fails query_arg userId_arg s))"
| restart: "reachable s \<Longrightarrow> reachable (s\<lparr>memories := []\<rparr>)"

text \<open>
  What the Primary Store keeps true of its keys: an identifier in the index of a user
  has no colon, and the record under the key of that user and identifier, when it is a
  memory, belongs to that user.
\<close>

definition colon_free :: "string \<Rightarrow> bool" where
  "colon_free i = (CHR '':'' \<notin> set i)"

definition scoped :: "db \<Rightarrow> bool" where
  "scoped d =
     (\<forall>u ids i. d (userSearchKey u) = Some (RSet ids) \<longrightarrow> i \<in> set ids \<longrightarrow>
        colon_free i \<and>
        (\<forall>m. d (memoryKey u i) = Some (RString (Memory_JSON m)) \<longrightarrow> userId m = u))"

text \<open>
  \<open>decimal\<close> with its test taken out of the recursion, for evaluation by rewriting.
\<close>

definition decimal_if :: "bool \<Rightarrow> nat \<Rightarrow> string" where
  "decimal_if b n = (if b then [digit n] else decimal (n div 10) @ [digit (n mod 10)])"

text \<open>
  What both stores keep true of their dates: every memory in the Fallback Store and
  every memory record in the Primary Store has a valid date.
\<close>

definition dated :: "server \<Rightarrow> bool" where
  "dated s =
     (valid_dates (memories s) \<and>
      (\<forall>key m. redis s key = Some (RString (Memory_JSON m)) \<longrightarrow> timestamp m \<noteq> Invalid_Date))"

text \<open>
  The members of an index set as \<open>smembers\<close> enumerates them, and the memories that a
  scan of the identifiers \<open>ids\<close> finds in the records of user \<open>u\<close> and matches against
  \<open>q\<close>, in the order of \<open>ids\<close>.
\<close>

definition members_of :: "rvalue option \<Rightarrow> string list" where
  "members_of v = (case v of Some (RSet ids) \<Rightarrow> ids | _ \<Rightarrow> [])"

fun records_matching :: "string \<Rightarrow> string \<Rightarrow> db \<Rightarrow> string list \<Rightarrow> memory list" where
  "records_matching u q d [] = []"
| "records_matching u q d (i # ids) =
     (case d (memoryKey u i) of
        Some (RString (Memory_JSON m)) \<Rightarrow>
          (if includes_str (toLowerCase (content m)) q then [m] else [])
      | _ \<Rightarrow> [])
     @ records_matching u q d ids"

subsection \<open>States used as examples\<close>

text \<open>
  A sequence of \<open>addMemory\<close> calls for one user under one fault schedule, each call
  with its draw, its clock and its content.
\<close>

fun add_each ::
  "(nat \<Rightarrow> bool) \<Rightarrow> string \<Rightarrow> (nat list \<times> int \<times> string) list \<Rightarrow> server \<Rightarrow> server" where
  "add_each fails u [] s = s"
| "add_each fails u ((rnd, now, c) # rest) s =
     add_each fails u rest (snd (addMemory rnd now fails (Given c) (Given u) s))"

text \<open>
  Three memories of user \<open>u1\<close> written to the Primary Store on three consecutive days,
  and fifteen written to the Fallback Store, one a day.
\<close>

definition three_teas :: server where
  "three_teas =
     add_each healthy ''u1''
       [([1], 0, ''black tea''), ([2], 86400000, ''green tea''), ([3], 172800000, ''mint tea'')]
       init"

definition fifteen_teas :: server where
  "fifteen_teas =
     add_each unreachable ''u1''
       (map (\<lambda>i. ([i], 86400000 * int i, ''tea '' @ decimal i)) [0..<15]) init"

text \<open>
  Two memories of user \<open>u1\<close> in the Primary Store, with the identifiers \<open>a\<close> and \<open>b\<close>;
  the same store once the record of \<open>a\<close> has gone while its index entry stays, and once
  the record of \<open>a\<close> has been replaced by text that is not JSON.
\<close>

definition two_notes :: server where
  "two_notes = add_each healthy ''u1'' [([10], 0, ''likes coffee''), ([11], 0, ''likes tea'')] init"

definition dangling_store :: server where
  "dangling_store = two_notes\<lparr>redis := (redis two_notes)(''memory:u1:a'' := None)\<rparr>"

definition malformed_store :: server where
  "malformed_store = two_notes\<lparr>redis := (redis two_notes)(''memory:u1:a'' \<mapsto> RString Not_JSON)\<rparr>"

text \<open>Two users with a memory each in the Primary Store, the second also in the Fallback Store.\<close>

definition two_users :: server where
  "two_users =
     add_each unreachable ''u2'' [([4], 259200000, ''iced tea'')]
       (add_each healthy ''u2'' [([3], 172800000, ''green tea'')]
          (add_each healthy ''u1'' [([1], 0, ''black tea'')] init))"

text \<open>Ten memories of user \<open>u1\<close> written to the Fallback Store within one millisecond.\<close>

definition ten_teas :: server where
  "ten_teas =
     add_each unreachable ''u1'' (map (\<lambda>i. ([i], 86400000, ''green tea'')) [0..<10]) init"

text \<open>
  States after one \<open>addMemory\<close> call on the empty server: a write under forced failure
  of the Primary Store, a write to the Primary Store, a write without userId, a write
  with the empty userId; and \<open>ten_teas\<close> after an eleventh write in the same millisecond.
\<close>

definition tea_written :: server where
  "tea_written = snd (addMemory [1] 0 unreachable (Given ''likes tea'') (Given ''u1'') init)"

definition ocaml_written :: server where
  "ocaml_written = snd (addMemory [2] 0 healthy (Given ''Quinn loves OCaml'') (Given ''u1'') init)"

definition default_written :: server where
  "default_written = snd (addMemory [1] 0 healthy (Given ''likes tea'') Absent init)"

definition empty_written :: server where
  "empty_written = snd (addMemory [1] 0 healthy (Given ''likes tea'') (Given []) init)"

definition eleventh_tea :: server where
  "eleventh_tea =
     snd (addMemory [10] 86400000 unreachable (Given ''likes tea'') (Given ''u1'') ten_teas)"

text \<open>
  Three memories of user \<open>u1\<close> written to the Primary Store in one millisecond, the third
  with the draw, and so the identifier, of the first.
\<close>

definition collide :: server where
  "collide =
     add_each healthy ''u1'' [([18], 5, ''tea a''), ([19], 5, ''tea b''), ([18], 5, ''tea c'')]
       init"

section \<open>Properties\<close>

subsection \<open>Evaluation\<close>

lemma decimal_code [code]: "decimal n = decimal_if (n < 10) n"
  by (simp add: decimal_if_def decimal.simps [of n])

lemma decimal_if_code [code]:
  "decimal_if True n = [digit n]"
  "decimal_if False n = decimal (n div 10) @ [digit (n mod 10)]"
  by (simp_all add: decimal_if_def)

subsection \<open>The reply and the state of a search\<close>

lemma searchMemories_unfold:
  "searchMemories fails query_arg userId_arg s =
     (case schema_parse query_arg userId_arg of
        Inl e \<Rightarrow> (Inl e, s)
      | Inr (query, u) \<Rightarrow>
          (format_results query (sortedMatches fails query u s),
           snd (collectMatches fails u (toLowerCase query) s)))"
  by (simp add: searchMemories_def sortedMatches_def Let_def split: sum.splits prod.splits)

subsection \<open>The search leaves both stores as they are\<close>

lemma redis_get_db: "snd (redis_get f key d) = d"
  by (simp add: redis_get_def split: option.splits rvalue.splits)

lemma redis_smembers_db: "snd (redis_smembers f key d) = d"
  by (simp add: redis_smembers_def split: option.splits rvalue.splits)

lemma scan_db: "snd (scan fails k u q ids acc d) = d"
proof (induction ids arbitrary: k acc)
  case Nil
  show ?case by simp
next
  case (Cons i ids)
  obtain r d1 where g: "redis_get (fails k) (memoryKey u i) d = (r, d1)"
    by (cases "redis_get (fails k) (memoryKey u i) d")
  have d1: "d1 = d" using redis_get_db [of "fails k" "memoryKey u i" d] g by simp
  show ?case using Cons.IH
    by (simp add: g d1 split: sum.splits option.splits)
qed

lemma searchInDragonfly_db: "snd (searchInDragonfly fails u q d) = d"
proof -
  obtain r d1 where g: "redis_smembers (fails 0) (userSearchKey u) d = (r, d1)"
    by (cases "redis_smembers (fails 0) (userSearchKey u) d")
  have d1: "d1 = d" using redis_smembers_db [of "fails 0" "userSearchKey u" d] g by simp
  show ?thesis
    by (simp add: searchInDragonfly_def g d1 scan_db split: sum.splits)
qed

lemma collectMatches_server: "snd (collectMatches fails u q s) = s"
proof -
  obtain r d1 where g: "searchInDragonfly fails u q (redis s) = (r, d1)"
    by (cases "searchInDragonfly fails u q (redis s)")
  have d1: "d1 = redis s" using searchInDragonfly_db [of fails u q "redis s"] g by simp
  show ?thesis
    by (simp add: collectMatches_def g d1 split: sum.splits)
qed

lemma searchMemories_server: "snd (searchMemories fails query_arg userId_arg s) = s"
proof (cases "schema_parse query_arg userId_arg")
  case (Inl e)
  then show ?thesis by (simp add: searchMemories_unfold)
next
  case (Inr p)
  obtain query u where p: "p = (query, u)" by (cases p)
  show ?thesis by (simp add: searchMemories_unfold Inr p collectMatches_server)
qed

text \<open>
  C10. \<open>searchMemories\<close> is read-only: whatever the arguments, the fault schedule and the
  path taken, and also when it throws, the server state after the call (the Fallback
  Store sequence and the Primary Store contents, records and index sets) is the state
  before the call.
\<close>

theorem searchMemories_read_only:
  "snd (searchMemories fails query_arg userId_arg s) = s
   \<and> memories (snd (searchMemories fails query_arg userId_arg s)) = memories s
   \<and> redis (snd (searchMemories fails query_arg userId_arg s)) = redis s"
  by (simp add: searchMemories_server)

subsection \<open>No match\<close>

lemma format_results_Nil: "format_results query [] = Inr (not_found_text query)"
  by (simp add: format_results_def)

lemma sort_by_Nil: "sort_by cmp [] = []"
  by (simp add: sort_by_def)

text \<open>
  C7. When a search with valid arguments collects no match, from the Primary Store or
  from the Fallback Store, the reply is the fixed message that names the query: no
  exception, and no \<open>Found ...\<close> digest with nothing in it.
\<close>

theorem no_match_message:
  assumes "schema_parse query_arg userId_arg = Inr (query, u)"
    and "fst (collectMatches fails u (toLowerCase query) s) = []"
  shows "fst (searchMemories fails query_arg userId_arg s)
           = Inr (''No memories found for query: '' @ [CHR 0x22] @ query @ [CHR 0x22])
         \<and> fst (searchMemories fails query_arg userId_arg s) \<noteq> Inr (found_text n query r)"
  using assms
  by (simp add: searchMemories_unfold sortedMatches_def sort_by_Nil format_results_Nil
      not_found_text_def found_text_def)

theorem no_match_message_witness:
  "schema_parse (Given ''tea'') Absent = Inr (''tea'', ''quinn_may'')
   \<and> fst (collectMatches unreachable ''quinn_may'' (toLowerCase ''tea'') init) = []
   \<and> fst (searchMemories unreachable (Given ''tea'') Absent init)
        = Inr (''No memories found for query: '' @ [CHR 0x22] @ ''tea'' @ [CHR 0x22])"
proof -
  have a: "schema_parse (Given ''tea'') Absent = Inr (''tea'', ''quinn_may'')"
    by (simp add: schema_parse_def z_string_def z_string_default_def)
  have b: "fst (collectMatches unreachable ''quinn_may'' (toLowerCase ''tea'') init) = []"
    by (simp add: collectMatches_def searchInDragonfly_def redis_smembers_def unreachable_def
        searchFallback_def init_def)
  show ?thesis using a b no_match_message [OF a b] by simp
qed

subsection \<open>The generated identifier\<close>

lemma digit_base36: "digit d \<in> set base36"
  unfolding digit_def by (rule nth_mem) (simp add: base36_def)

text \<open>
  C8, as the code has it. The identifier is what \<open>substring(2, 15)\<close> leaves of the
  rendering of the draw: at most 13 characters, each a base-36 digit. Nothing bounds its
  length from below.
\<close>

theorem generated_id_shape:
  "length (id' (newMemory rnd now c u)) \<le> 13
   \<and> set (id' (newMemory rnd now c u)) \<subseteq> set base36"
proof -
  have "set (drop 2 (toString36 rnd)) \<subseteq> set base36"
    using digit_base36 by (auto simp: toString36_def base36_def)
  then have "set (substring 2 15 (toString36 rnd)) \<subseteq> set base36"
    unfolding substring_def using set_take_subset by fastforce
  then show ?thesis by (simp add: newMemory_def substring_def)
qed

text \<open>
  The draw 0.5 renders as \<open>0.i\<close>: the memory that \<open>addMemory\<close> stores gets the
  one-character identifier \<open>i\<close>.
\<close>

theorem generated_id_short_counterexample:
  "map (length \<circ> id')
     (memories (snd (addMemory [18] 0 unreachable (Given ''likes tea'') (Given ''u1'') init)))
     = [1]"
  by (simp add: addMemory_def schema_parse_def z_string_def z_string_default_def newMemory_def
      storeInDragonfly_def redis_set_def unreachable_def init_def substring_def toString36_def
      digit_def base36_def Let_def)

subsection \<open>Which store a write reaches\<close>

lemma keys_differ: "memoryKey u i \<noteq> userSearchKey u'"
  by (simp add: memoryKey_def userSearchKey_def)

lemma storeInDragonfly_set_fails:
  "fails 0 \<Longrightarrow> storeInDragonfly fails m d = (Some BackendError, d)"
  by (simp add: storeInDragonfly_def redis_set_def)

lemma storeInDragonfly_sadd_fails:
  assumes "\<not> fails 0" and "fails 1 \<or> holds_string d (userSearchKey (userId m))"
  shows "\<exists>e. storeInDragonfly fails m d
           = (Some e, d(memoryKey (userId m) (id' m) \<mapsto> RString (JSON_stringify m)))"
  using assms keys_differ [of "userId m" "id' m" "userId m"]
  by (auto simp: storeInDragonfly_def redis_set_def redis_sadd_def holds_string_def
      split: option.splits rvalue.splits)

lemma storeInDragonfly_ok:
  assumes "\<not> fails 0" and "\<not> fails 1" and "\<not> holds_string d (userSearchKey (userId m))"
  shows "storeInDragonfly fails m d
           = (None, d(memoryKey (userId m) (id' m) \<mapsto> RString (JSON_stringify m),
                      userSearchKey (userId m) \<mapsto>
                        RSet (index_with (id' m) (d (userSearchKey (userId m))))))"
proof -
  let ?k = "memoryKey (userId m) (id' m)" and ?sk = "userSearchKey (userId m)"
  let ?d1 = "d(?k \<mapsto> RString (JSON_stringify m))"
  have ne: "?k \<noteq> ?sk" by (rule keys_differ)
  have d1: "?d1 ?sk = d ?sk" using ne by simp
  have s: "redis_set (fails 0) ?k (JSON_stringify m) d = (Inr (), ?d1)"
    using assms(1) by (simp add: redis_set_def)
  have a: "redis_sadd (fails 1) ?sk (id' m) ?d1
             = (Inr (), ?d1(?sk \<mapsto> RSet (index_with (id' m) (d ?sk))))"
  proof (cases "d ?sk")
    case None
    then show ?thesis using assms(2) d1 by (simp add: redis_sadd_def index_with_def)
  next
    case (Some v)
    show ?thesis
    proof (cases v)
      case (RString x)
      then show ?thesis using assms(3) Some by (simp add: holds_string_def)
    next
      case (RSet ms)
      have "id' m \<in> set ms \<Longrightarrow> ?d1(?sk \<mapsto> RSet ms) = ?d1"
        using Some RSet d1 by (metis fun_upd_idem_iff)
      then show ?thesis using assms(2) Some RSet d1
        by (simp add: redis_sadd_def index_with_def)
    qed
  qed
  show ?thesis by (simp add: storeInDragonfly_def s a [unfolded One_nat_def])
qed

lemma newMemory_userId: "userId (newMemory rnd now c u) = u"
  by (simp add: newMemory_def)

text \<open>
  C3, as the code has it. For valid arguments the call ends in one of three ways.
  When \<open>set\<close> fails, the Primary Store is untouched and the memory is appended to the
  Fallback Store. When \<open>set\<close> succeeds and \<open>sadd\<close> fails (or answers WRONGTYPE), the
  record stays written in the Primary Store, without its index entry, and the memory is
  appended to the Fallback Store as well. When both succeed, the Primary Store holds the
  record and the index entry and the Fallback Store is untouched.
\<close>

theorem addMemory_store_effects:
  assumes "schema_parse content_arg userId_arg = Inr (c, u)"
    and "m = newMemory rnd now c u"
    and "s' = snd (addMemory rnd now fails content_arg userId_arg s)"
  shows "(fails 0 \<longrightarrow> s' = \<lparr>memories = memories s @ [m], redis = redis s\<rparr>)
       \<and> (\<not> fails 0 \<and> (fails 1 \<or> holds_string (redis s) (userSearchKey u)) \<longrightarrow>
            s' = \<lparr>memories = memories s @ [m],
                  redis = (redis s)(memoryKey u (id' m) \<mapsto> RString (JSON_stringify m))\<rparr>)
       \<and> (\<not> fails 0 \<and> \<not> fails 1 \<and> \<not> holds_string (redis s) (userSearchKey u) \<longrightarrow>
            s' = \<lparr>memories = memories s,
                  redis = (redis s)(memoryKey u (id' m) \<mapsto> RString (JSON_stringify m),
                            userSearchKey u \<mapsto>
                              RSet (index_with (id' m) (redis s (userSearchKey u))))\<rparr>)"
proof -
  have u: "userId m = u" using assms(2) by (simp add: newMemory_def)
  have s': "s' = (case storeInDragonfly fails m (redis s) of
                    (None, d) \<Rightarrow> s\<lparr>redis := d\<rparr>
                  | (Some e, d) \<Rightarrow> \<lparr>memories = memories s @ [m], redis = d\<rparr>)"
    using assms by (simp add: addMemory_def Let_def split: prod.splits option.splits)
  have 1: "fails 0 \<Longrightarrow> s' = \<lparr>memories = memories s @ [m], redis = redis s\<rparr>"
    using s' by (simp add: storeInDragonfly_set_fails)
  have 2: "\<not> fails 0 \<Longrightarrow> fails 1 \<or> holds_string (redis s) (userSearchKey u) \<Longrightarrow>
            s' = \<lparr>memories = memories s @ [m],
                  redis = (redis s)(memoryKey u (id' m) \<mapsto> RString (JSON_stringify m))\<rparr>"
    using s' storeInDragonfly_sadd_fails [of fails "redis s" m] u by auto
  have 3: "\<not> fails 0 \<Longrightarrow> \<not> fails 1 \<Longrightarrow> \<not> holds_string (redis s) (userSearchKey u) \<Longrightarrow>
            s' = \<lparr>memories = memories s,
                  redis = (redis s)(memoryKey u (id' m) \<mapsto> RString (JSON_stringify m),
                            userSearchKey u \<mapsto>
                              RSet (index_with (id' m) (redis s (userSearchKey u))))\<rparr>"
    using s' storeInDragonfly_ok [of fails "redis s" m] u by simp
  show ?thesis using 1 2 3 by blast
qed


theorem addMemory_store_effects_witness:
  "schema_parse (Given ''likes tea'') (Given ''u1'') = Inr (''likes tea'', ''u1'')
   \<and> \<not> healthy 0 \<and> \<not> healthy 1 \<and> \<not> holds_string (redis init) (userSearchKey ''u1'')
   \<and> snd (addMemory [18] 0 healthy (Given ''likes tea'') (Given ''u1'') init)
       = \<lparr>memories = [],
          redis = [''memory:u1:i'' \<mapsto>
                     RString (Memory_JSON \<lparr>id' = ''i'', content = ''likes tea'', userId = ''u1'',
                                            timestamp = Date 0\<rparr>),
                   ''search:u1'' \<mapsto> RSet [''i'']]\<rparr>"
proof -
  have a: "schema_parse (Given ''likes tea'') (Given ''u1'') = Inr (''likes tea'', ''u1'')"
    by (simp add: schema_parse_def z_string_def z_string_default_def)
  have h: "\<not> healthy 0" "\<not> healthy 1" "\<not> holds_string (redis init) (userSearchKey ''u1'')"
    by (simp_all add: healthy_def holds_string_def init_def)
  have n: "newMemory [18] 0 ''likes tea'' ''u1''
             = \<lparr>id' = ''i'', content = ''likes tea'', userId = ''u1'', timestamp = Date 0\<rparr>"
    by (simp add: newMemory_def substring_def toString36_def digit_def base36_def)
  show ?thesis
    using a h addMemory_store_effects [OF a refl refl, where rnd = "[18]" and now = 0 and fails = healthy
        and s = init]
    by (simp add: n JSON_stringify_def memoryKey_def userSearchKey_def index_with_def init_def)
qed

text \<open>
  One call that changes both stores: \<open>set\<close> succeeds, \<open>sadd\<close> fails.
\<close>

theorem addMemory_both_stores_counterexample:
  "memories init = []
   \<and> memories (snd (addMemory [18] 0 (fails_at 1) (Given ''likes tea'') (Given ''u1'') init))
       = [\<lparr>id' = ''i'', content = ''likes tea'', userId = ''u1'', timestamp = Date 0\<rparr>]
   \<and> redis init ''memory:u1:i'' = None
   \<and> redis (snd (addMemory [18] 0 (fails_at 1) (Given ''likes tea'') (Given ''u1'') init))
        ''memory:u1:i''
       = Some (RString (Memory_JSON \<lparr>id' = ''i'', content = ''likes tea'', userId = ''u1'',
                                     timestamp = Date 0\<rparr>))"
  by (simp add: addMemory_def schema_parse_def z_string_def z_string_default_def newMemory_def
      storeInDragonfly_def redis_set_def redis_sadd_def fails_at_def init_def substring_def
      toString36_def digit_def base36_def JSON_stringify_def memoryKey_def userSearchKey_def
      Let_def)

subsection \<open>Ordering of the matches\<close>

lemma valid_dates_Cons: "valid_dates (x # xs) = (timestamp x \<noteq> Invalid_Date \<and> valid_dates xs)"
  by (simp add: valid_dates_def)

lemma compareFn_valid:
  assumes "timestamp a \<noteq> Invalid_Date" and "timestamp b \<noteq> Invalid_Date"
  shows "compareFn a b = time_value b - time_value a"
  using assms by (cases "timestamp a"; cases "timestamp b") (simp_all add: compareFn_def getTime_def time_value_def)

lemma insert_by_compareFn:
  assumes "timestamp x \<noteq> Invalid_Date" and "valid_dates ys"
  shows "insert_by compareFn x ys = insort_key (\<lambda>m. - time_value m) x ys"
  using assms
proof (induction ys)
  case Nil
  show ?case by simp
next
  case (Cons y ys)
  then have c: "compareFn x y = time_value y - time_value x"
    by (simp add: compareFn_valid valid_dates_Cons)
  show ?case using Cons by (auto simp: c valid_dates_Cons)
qed

lemma valid_dates_set: "valid_dates xs = (\<forall>m\<in>set xs. timestamp m \<noteq> Invalid_Date)"
  by (simp add: valid_dates_def list_all_iff)

lemma sort_by_compareFn:
  assumes "valid_dates xs"
  shows "sort_by compareFn xs = sort_key (\<lambda>m. - time_value m) xs"
  using assms
proof (induction xs)
  case Nil
  show ?case by (simp add: sort_by_def)
next
  case (Cons x xs)
  then have ih: "sort_by compareFn xs = sort_key (\<lambda>m. - time_value m) xs"
    and x: "timestamp x \<noteq> Invalid_Date" and xs: "valid_dates xs"
    by (simp_all add: valid_dates_Cons)
  have v: "valid_dates (sort_key (\<lambda>m. - time_value m) xs)"
    using xs by (simp add: valid_dates_set)
  have "sort_by compareFn (x # xs) = insert_by compareFn x (sort_by compareFn xs)"
    by (simp add: sort_by_def)
  then show ?case using insert_by_compareFn [OF x v] ih by simp
qed

lemma sorted_descending:
  "sorted (map (\<lambda>m. - time_value m) xs) = sorted_wrt (\<lambda>a b. time_value b \<le> time_value a) xs"
  by (simp add: sorted_map)

text \<open>For matches with valid dates, line 180 is a stable sort on descending time.\<close>

lemma sorted_stable_general:
  assumes "valid_dates (fst (collectMatches fails u (toLowerCase query) s))"
  shows "sorted_wrt (\<lambda>a b. time_value b \<le> time_value a) (sortedMatches fails query u s)
       \<and> mset (sortedMatches fails query u s)
           = mset (fst (collectMatches fails u (toLowerCase query) s))
       \<and> filter (\<lambda>m. time_value m = t) (sortedMatches fails query u s)
           = filter (\<lambda>m. time_value m = t) (fst (collectMatches fails u (toLowerCase query) s))"
proof -
  let ?ms = "fst (collectMatches fails u (toLowerCase query) s)"
  let ?f = "\<lambda>m. - time_value m"
  have eq: "sortedMatches fails query u s = sort_key ?f ?ms"
    using assms by (simp add: sortedMatches_def sort_by_compareFn)
  have 1: "sorted_wrt (\<lambda>a b. time_value b \<le> time_value a) (sort_key ?f ?ms)"
    using sorted_sort_key [of ?f ?ms] by (simp add: sorted_descending)
  have 2: "mset (sort_key ?f ?ms) = mset ?ms" by simp
  have "filter (\<lambda>m. ?f m = - t) (sort_key ?f ?ms) = filter (\<lambda>m. ?f m = - t) ?ms"
    by (rule sort_key_stable)
  then have 3: "filter (\<lambda>m. time_value m = t) (sort_key ?f ?ms)
                  = filter (\<lambda>m. time_value m = t) ?ms"
    by simp
  show ?thesis using 1 2 3 by (simp add: eq)
qed



subsection \<open>The digest\<close>

lemma digit_not_T: "digit d \<noteq> CHR ''T''"
  using digit_base36 [of d] by (auto simp: base36_def)

lemma decimal_no_T: "CHR ''T'' \<notin> set (decimal n)"
proof (induction n rule: decimal.induct)
  case (1 n)
  show ?case
  proof (cases "n < 10")
    case True
    then show ?thesis using digit_not_T [of n] by (simp add: decimal.simps [of n])
  next
    case False
    then show ?thesis using "1" digit_not_T [of "n mod 10"]
      by (simp add: decimal.simps [of n])
  qed
qed

lemma pad_no_T: "CHR ''T'' \<notin> set (pad w n)"
  using decimal_no_T [of n] by (auto simp: pad_def)

lemma year_text_no_T: "CHR ''T'' \<notin> set (year_text y)"
  using pad_no_T by (auto simp: year_text_def)

lemma isoDate_no_T: "CHR ''T'' \<notin> set (isoDate t)"
  using pad_no_T year_text_no_T by (auto simp: isoDate_def split: prod.splits)

lemma toISOString_Date: "\<exists>rest. toISOString (Date t) = Inr (isoDate t @ CHR ''T'' # rest)"
  by (simp add: toISOString_def isoDate_def Let_def split: prod.splits)

lemma split_T_0_isoDate: "split_T_0 (isoDate t @ CHR ''T'' # rest) = isoDate t"
  using isoDate_no_T [of t] by (auto simp: split_T_0_def takeWhile_tail)

lemma render_valid:
  assumes "timestamp m \<noteq> Invalid_Date"
  shows "render i m = Inr (digest_line i m)"
proof -
  obtain t where t: "timestamp m = Date t" using assms by (cases "timestamp m") auto
  obtain rest where r: "toISOString (Date t) = Inr (isoDate t @ CHR ''T'' # rest)"
    using toISOString_Date by blast
  show ?thesis
    by (simp add: render_def t r split_T_0_isoDate digest_line_def time_value_def)
qed

lemma render_from_valid:
  assumes "valid_dates ms"
  shows "render_from k ms = Inr (digest_lines k ms)"
  using assms
  by (induction ms arbitrary: k) (simp_all add: valid_dates_Cons render_valid)

lemma length_digest_lines: "length (digest_lines k ms) = length ms"
  by (induction ms arbitrary: k) simp_all

lemma format_results_found:
  assumes "ms \<noteq> []" and "valid_dates (take 10 ms)"
  shows "format_results query ms
           = Inr (found_text (length ms) query
                    (join [CHR 0x0A, CHR 0x0A] (digest_lines 0 (take 10 ms))))"
  using assms by (simp add: format_results_def render_from_valid)

lemma digest_truncated_general:
  assumes "schema_parse query_arg userId_arg = Inr (query, u)"
    and "ms = sortedMatches fails query u s"
    and "10 < length ms"
    and "valid_dates (take 10 ms)"
  shows "fst (searchMemories fails query_arg userId_arg s)
           = Inr (''Found '' @ decimal (length ms) @ '' matching memories for '' @ [CHR 0x22]
                  @ query @ [CHR 0x22] @ '':'' @ [CHR 0x0A, CHR 0x0A]
                  @ join [CHR 0x0A, CHR 0x0A] (digest_lines 0 (take 10 ms)))
         \<and> length (digest_lines 0 (take 10 ms)) = 10"
proof -
  have ne: "ms \<noteq> []" using assms(3) by auto
  have "fst (searchMemories fails query_arg userId_arg s) = format_results query ms"
    using assms(1,2) by (simp add: searchMemories_unfold)
  then show ?thesis
    using format_results_found [OF ne assms(4), of query] assms(3)
    by (simp add: found_text_def length_digest_lines)
qed

subsection \<open>The scan of the index\<close>

lemma redis_get_eq:
  "redis_get f key d =
     ((if f then Inl BackendError
       else case d key of
              None \<Rightarrow> Inr None
            | Some (RString v) \<Rightarrow> Inr (Some v)
            | Some (RSet ms) \<Rightarrow> Inl WrongTypeError), d)"
  by (simp add: redis_get_def split: option.splits rvalue.splits)

lemma redis_smembers_eq:
  "redis_smembers f key d =
     ((if f then Inl BackendError
       else case d key of
              None \<Rightarrow> Inr []
            | Some (RSet ms) \<Rightarrow> Inr ms
            | Some (RString v) \<Rightarrow> Inl WrongTypeError), d)"
  by (simp add: redis_smembers_def split: option.splits rvalue.splits)

lemma scan_Cons:
  "fst (scan fails k u q (i # ids) acc d) =
     (if fails k then Inl BackendError
      else case d (memoryKey u i) of
             None \<Rightarrow> fst (scan fails (Suc k) u q ids acc d)
           | Some (RSet x) \<Rightarrow> Inl WrongTypeError
           | Some (RString v) \<Rightarrow>
               (if v = Blank then fst (scan fails (Suc k) u q ids acc d)
                else case JSON_parse v of
                       Inl e \<Rightarrow> Inl e
                     | Inr m \<Rightarrow>
                         (if includes_str (toLowerCase (content m)) q
                          then fst (scan fails (Suc k) u q ids (acc @ [m]) d)
                          else fst (scan fails (Suc k) u q ids acc d))))"
  by (simp add: redis_get_eq split: option.splits rvalue.splits sum.splits)

lemma scan_Nil: "fst (scan fails k u q [] acc d) = Inr acc"
  by simp

lemma scan_malformed:
  assumes "i \<in> set ids" and "d (memoryKey u i) = Some (RString v)" and "v \<noteq> Blank"
    and "JSON_parse v = Inl e"
  shows "\<exists>e'. fst (scan fails k u q ids acc d) = Inl e'"
  using assms(1)
proof (induction ids arbitrary: k acc)
  case Nil
  then show ?case by simp
next
  case (Cons j ids)
  show ?case
  proof (cases "j = i")
    case True
    then show ?thesis using assms(2-4) by (simp add: scan_Cons del: scan.simps)
  next
    case False
    then have "i \<in> set ids" using Cons.prems by simp
    then have ih: "\<And>k acc. \<exists>e'. fst (scan fails k u q ids acc d) = Inl e'"
      using Cons.IH by blast
    show ?thesis
      using ih [of "Suc k" acc] ih [of "Suc k" "acc @ [the_memory]" for the_memory]
      by (auto simp: scan_Cons simp del: scan.simps split: option.splits rvalue.splits sum.splits)
  qed
qed

lemma scan_acc:
  "fst (scan fails k u q ids acc d) = Inr ms \<Longrightarrow> set acc \<subseteq> set ms"
proof (induction ids arbitrary: k acc)
  case Nil
  then show ?case by simp
next
  case (Cons j ids)
  from Cons.prems show ?case
    by (auto simp: scan_Cons simp del: scan.simps
        split: if_splits option.splits rvalue.splits sum.splits dest!: Cons.IH)
qed

lemma scan_finds:
  assumes "i \<in> set ids" and "d (memoryKey u i) = Some (RString (Memory_JSON m))"
    and "includes_str (toLowerCase (content m)) q"
  shows "fst (scan fails k u q ids acc d) = Inr ms \<Longrightarrow> m \<in> set ms"
  using assms(1)
proof (induction ids arbitrary: k acc)
  case Nil
  then show ?case by simp
next
  case (Cons j ids)
  show ?case
  proof (cases "j = i")
    case True
    then have "fst (scan fails (Suc k) u q ids (acc @ [m]) d) = Inr ms"
      using Cons.prems(1) assms(2,3)
      by (simp add: scan_Cons JSON_parse_def del: scan.simps split: if_splits)
    then show ?thesis using scan_acc by fastforce
  next
    case False
    then have i: "i \<in> set ids" using Cons.prems by simp
    from Cons.prems(1) show ?thesis
      by (auto simp: scan_Cons simp del: scan.simps
          split: if_splits option.splits rvalue.splits sum.splits dest: Cons.IH [OF _ i])
  qed
qed

lemma scan_scoped:
  assumes "\<forall>i\<in>set ids. \<forall>m. d (memoryKey u i) = Some (RString (Memory_JSON m)) \<longrightarrow> userId m = u"
  shows "fst (scan fails k u q ids acc d) = Inr ms \<Longrightarrow> \<forall>m\<in>set acc. userId m = u
           \<Longrightarrow> \<forall>m\<in>set ms. userId m = u"
  using assms
proof (induction ids arbitrary: k acc)
  case Nil
  then show ?case by simp
next
  case (Cons j ids)
  have rest: "\<forall>i\<in>set ids. \<forall>m. d (memoryKey u i) = Some (RString (Memory_JSON m)) \<longrightarrow> userId m = u"
    using Cons.prems(3) by simp
  have here: "\<And>m. d (memoryKey u j) = Some (RString (Memory_JSON m)) \<Longrightarrow> userId m = u"
    using Cons.prems(3) by simp
  from Cons.prems(1) consider
      (skip) "fst (scan fails (Suc k) u q ids acc d) = Inr ms"
    | (push) m where "d (memoryKey u j) = Some (RString (Memory_JSON m))"
        and "fst (scan fails (Suc k) u q ids (acc @ [m]) d) = Inr ms"
    by (auto simp: scan_Cons JSON_parse_def simp del: scan.simps
        split: if_splits option.splits rvalue.splits sum.splits stored.splits)
  then show ?case
  proof cases
    case skip
    then show ?thesis using Cons.IH [OF _ Cons.prems(2) rest] by blast
  next
    case (push m)
    have "\<forall>x\<in>set (acc @ [m]). userId x = u"
      using Cons.prems(2) here [OF push(1)] by simp
    then show ?thesis using Cons.IH [OF push(2) _ rest] by blast
  qed
qed

subsection \<open>A record that does not deserialize\<close>

lemma searchInDragonfly_malformed:
  assumes "d (userSearchKey u) = Some (RSet ids)" and "i \<in> set ids"
    and "d (memoryKey u i) = Some (RString v)" and "v = Not_JSON \<or> v = Not_Memory"
  shows "\<exists>e. fst (searchInDragonfly fails u q d) = Inl e"
proof -
  have nb: "v \<noteq> Blank" using assms(4) by auto
  obtain e where e: "JSON_parse v = Inl e" using assms(4) by (auto simp: JSON_parse_def)
  have "\<exists>e'. fst (scan fails 1 u q ids [] d) = Inl e'"
    using scan_malformed [where d = d, OF assms(2,3) nb e] by blast
  then show ?thesis
    using assms(1) by (simp add: searchInDragonfly_def redis_smembers_eq)
qed

lemma collectMatches_fallback:
  assumes "fst (searchInDragonfly fails u q (redis s)) = Inl e"
  shows "fst (collectMatches fails u q s) = searchFallback u q (memories s)"
  using assms by (cases "searchInDragonfly fails u q (redis s)") (simp add: collectMatches_def)

lemma searchInDragonfly_unreachable:
  "fst (searchInDragonfly unreachable u q d) = Inl BackendError"
  by (simp add: searchInDragonfly_def redis_smembers_eq unreachable_def)

text \<open>
  C2, as the code has it. A record that fails to deserialize is not skipped. When the
  index of the user holds an identifier whose record is text on which \<open>JSON.parse\<close>
  throws, or JSON of a value without a string \<open>content\<close>, the \<open>try\<close> block of the search
  throws under every fault schedule; what it had collected is dropped, the matches are
  those of the Fallback Store, and the call answers exactly as it does when the Primary
  Store is unreachable. The exception itself does not reach the caller.
\<close>

theorem malformed_record_aborts_scan:
  assumes "schema_parse query_arg userId_arg = Inr (query, u)"
    and "redis s (userSearchKey u) = Some (RSet ids)"
    and "i \<in> set ids"
    and "redis s (memoryKey u i) = Some (RString v)"
    and "v = Not_JSON \<or> v = Not_Memory"
  shows "fst (collectMatches fails u (toLowerCase query) s)
           = searchFallback u (toLowerCase query) (memories s)
       \<and> searchMemories fails query_arg userId_arg s
           = searchMemories unreachable query_arg userId_arg s"
proof -
  let ?q = "toLowerCase query"
  obtain e where e: "fst (searchInDragonfly fails u ?q (redis s)) = Inl e"
    using searchInDragonfly_malformed [OF assms(2-5)] by blast
  have a: "fst (collectMatches fails u ?q s) = searchFallback u ?q (memories s)"
    by (rule collectMatches_fallback [OF e])
  have b: "fst (collectMatches unreachable u ?q s) = searchFallback u ?q (memories s)"
    by (rule collectMatches_fallback [OF searchInDragonfly_unreachable])
  have "searchMemories fails query_arg userId_arg s
          = searchMemories unreachable query_arg userId_arg s"
    using assms(1) by (simp add: searchMemories_unfold sortedMatches_def a b collectMatches_server)
  then show ?thesis using a by simp
qed

theorem malformed_record_aborts_scan_witness:
  "schema_parse (Given ''tea'') (Given ''u1'') = Inr (''tea'', ''u1'')
   \<and> redis malformed_store (userSearchKey ''u1'') = Some (RSet [''a'', ''b''])
   \<and> ''a'' \<in> set [''a'', ''b'']
   \<and> redis malformed_store (memoryKey ''u1'' ''a'') = Some (RString Not_JSON)
   \<and> fst (collectMatches healthy ''u1'' (toLowerCase ''tea'') malformed_store)
       = searchFallback ''u1'' (toLowerCase ''tea'') (memories malformed_store)
   \<and> searchMemories healthy (Given ''tea'') (Given ''u1'') malformed_store
       = searchMemories unreachable (Given ''tea'') (Given ''u1'') malformed_store"
proof -
  have a: "schema_parse (Given ''tea'') (Given ''u1'') = Inr (''tea'', ''u1'')"
    by (simp add: schema_parse_def z_string_def z_string_default_def)
  have b: "redis malformed_store (userSearchKey ''u1'') = Some (RSet [''a'', ''b''])"
    by code_simp
  have c: "''a'' \<in> set [''a'', ''b'']" by simp
  have d: "redis malformed_store (memoryKey ''u1'' ''a'') = Some (RString Not_JSON)"
    by code_simp
  have e: "Not_JSON = Not_JSON \<or> Not_JSON = Not_Memory" by simp
  show ?thesis
    using a b c d malformed_record_aborts_scan [OF a b c d e, of healthy] by blast
qed

text \<open>
  The index of \<open>u1\<close> lists \<open>a\<close> and \<open>b\<close>, and \<open>b\<close> is a memory that matches. With no
  record under \<open>a\<close> the search finds \<open>b\<close>; with a record under \<open>a\<close> that is not JSON it
  finds nothing, the Fallback Store being empty.
\<close>

theorem malformed_not_skipped_counterexample:
  "fst (searchMemories healthy (Given ''tea'') (Given ''u1'') dangling_store)
     = Inr (''Found 1 matching memories for '' @ [CHR 0x22] @ ''tea'' @ [CHR 0x22] @ '':''
            @ [CHR 0x0A, CHR 0x0A] @ ''1. [1970-01-01] likes tea'')
   \<and> fst (searchMemories healthy (Given ''tea'') (Given ''u1'') malformed_store)
     = Inr (''No memories found for query: '' @ [CHR 0x22] @ ''tea'' @ [CHR 0x22])"
  by code_simp

subsection \<open>Memories stay with their user\<close>

lemma colon_free_base36: "set i \<subseteq> set base36 \<Longrightarrow> colon_free i"
  by (auto simp: colon_free_def base36_def)

lemma substring_base36: "set (substring 2 15 (toString36 rnd)) \<subseteq> set base36"
proof -
  have "set (drop 2 (toString36 rnd)) \<subseteq> set base36"
    using digit_base36 by (auto simp: toString36_def base36_def)
  then show ?thesis
    unfolding substring_def using set_take_subset by fastforce
qed

lemma newMemory_colon_free: "colon_free (id' (newMemory rnd now c u))"
  using substring_base36 [of rnd] by (simp add: newMemory_def colon_free_base36)

lemma split_last_colon:
  assumes "colon_free i" and "colon_free i'" and "u @ CHR '':'' # i = u' @ CHR '':'' # i'"
  shows "u = u' \<and> i = i'"
proof -
  have a: "takeWhile (\<lambda>c. c \<noteq> CHR '':'') (rev (u @ CHR '':'' # i)) = rev i"
    using assms(1) by (auto simp: colon_free_def takeWhile_tail)
  have b: "takeWhile (\<lambda>c. c \<noteq> CHR '':'') (rev (u' @ CHR '':'' # i')) = rev i'"
    using assms(2) by (auto simp: colon_free_def takeWhile_tail)
  have "rev i = rev i'" using a b assms(3) by simp
  then have "i = i'" by simp
  then show ?thesis using assms(3) by simp
qed

lemma memoryKey_inject:
  assumes "colon_free i" and "colon_free i'" and "memoryKey u i = memoryKey u' i'"
  shows "u = u' \<and> i = i'"
  using split_last_colon [OF assms(1,2)] assms(3) by (simp add: memoryKey_def)

lemma userSearchKey_inject: "userSearchKey u = userSearchKey u' \<Longrightarrow> u = u'"
  by (simp add: userSearchKey_def)

lemma scoped_init: "scoped (redis init)"
  by (simp add: scoped_def init_def)

lemma scoped_set:
  assumes "scoped d" and "colon_free (id' m)"
  shows "scoped (d(memoryKey (userId m) (id' m) \<mapsto> RString (JSON_stringify m)))"
  unfolding scoped_def
proof (intro allI impI)
  fix u ids i
  let ?d1 = "d(memoryKey (userId m) (id' m) \<mapsto> RString (JSON_stringify m))"
  assume idx: "?d1 (userSearchKey u) = Some (RSet ids)" and i: "i \<in> set ids"
  have idx': "d (userSearchKey u) = Some (RSet ids)"
    using idx keys_differ [of "userId m" "id' m" u] by (simp split: if_splits)
  have cf: "colon_free i" using assms(1) idx' i unfolding scoped_def by blast
  have "userId x = u" if x: "?d1 (memoryKey u i) = Some (RString (Memory_JSON x))" for x
  proof (cases "memoryKey u i = memoryKey (userId m) (id' m)")
    case True
    then have "u = userId m" using memoryKey_inject [OF cf assms(2)] by blast
    moreover have "userId x = userId m" using x True by (auto simp: JSON_stringify_def)
    ultimately show ?thesis by simp
  next
    case False
    then have "d (memoryKey u i) = Some (RString (Memory_JSON x))" using x by simp
    then show ?thesis using assms(1) idx' i unfolding scoped_def by blast
  qed
  then show "colon_free i \<and> (\<forall>x. ?d1 (memoryKey u i) = Some (RString (Memory_JSON x)) \<longrightarrow> userId x = u)"
    using cf by blast
qed

lemma set_index_with: "set (index_with i v) \<subseteq> insert i (case v of Some (RSet ms) \<Rightarrow> set ms | _ \<Rightarrow> {})"
  by (auto simp: index_with_def split: option.splits rvalue.splits)

lemma scoped_sadd:
  assumes "scoped d" and "colon_free j"
    and "\<forall>x. d (memoryKey w j) = Some (RString (Memory_JSON x)) \<longrightarrow> userId x = w"
  shows "scoped (d(userSearchKey w \<mapsto> RSet (index_with j (d (userSearchKey w)))))"
  unfolding scoped_def
proof (intro allI impI)
  fix u ids i
  let ?d2 = "d(userSearchKey w \<mapsto> RSet (index_with j (d (userSearchKey w))))"
  assume idx: "?d2 (userSearchKey u) = Some (RSet ids)" and i: "i \<in> set ids"
  have rec: "?d2 (memoryKey u i) = d (memoryKey u i)"
    using keys_differ [of u i w] by simp
  have "colon_free i \<and> (\<forall>x. d (memoryKey u i) = Some (RString (Memory_JSON x)) \<longrightarrow> userId x = u)"
  proof (cases "u = w")
    case True
    then have "ids = index_with j (d (userSearchKey w))" using idx by simp
    then have "i = j \<or> (\<exists>ms. d (userSearchKey w) = Some (RSet ms) \<and> i \<in> set ms)"
      using i set_index_with [of j "d (userSearchKey w)"]
      by (auto split: option.splits rvalue.splits)
    then show ?thesis
    proof
      assume "i = j"
      then show ?thesis using assms(2,3) True by simp
    next
      assume "\<exists>ms. d (userSearchKey w) = Some (RSet ms) \<and> i \<in> set ms"
      then show ?thesis using assms(1) True unfolding scoped_def by blast
    qed
  next
    case False
    then have "userSearchKey u \<noteq> userSearchKey w" using userSearchKey_inject by blast
    then have "d (userSearchKey u) = Some (RSet ids)" using idx by simp
    then show ?thesis using assms(1) i unfolding scoped_def by blast
  qed
  then show "colon_free i \<and> (\<forall>x. ?d2 (memoryKey u i) = Some (RString (Memory_JSON x)) \<longrightarrow> userId x = u)"
    using keys_differ [of u i w] by simp
qed

lemma scoped_storeInDragonfly:
  assumes "scoped d" and "colon_free (id' m)"
  shows "scoped (snd (storeInDragonfly fails m d))"
proof -
  let ?k = "memoryKey (userId m) (id' m)" and ?sk = "userSearchKey (userId m)"
  let ?d1 = "d(?k \<mapsto> RString (JSON_stringify m))"
  have s1: "scoped ?d1" by (rule scoped_set [OF assms])
  consider (a) "fails 0"
    | (b) "\<not> fails 0" "fails 1 \<or> holds_string d ?sk"
    | (c) "\<not> fails 0" "\<not> fails 1" "\<not> holds_string d ?sk"
    by blast
  then show ?thesis
  proof cases
    case a
    then show ?thesis using assms(1) by (simp add: storeInDragonfly_set_fails)
  next
    case b
    then show ?thesis using storeInDragonfly_sadd_fails [OF b] s1 by auto
  next
    case c
    have r: "\<forall>x. ?d1 (memoryKey (userId m) (id' m)) = Some (RString (Memory_JSON x))
               \<longrightarrow> userId x = userId m"
      by (simp add: JSON_stringify_def)
    have e: "?d1 ?sk = d ?sk" using keys_differ [of "userId m" "id' m" "userId m"] by simp
    have "scoped (?d1(?sk \<mapsto> RSet (index_with (id' m) (?d1 ?sk))))"
      by (rule scoped_sadd [OF s1 assms(2) r])
    then have "scoped (?d1(?sk \<mapsto> RSet (index_with (id' m) (d ?sk))))"
      by (simp only: e)
    then show ?thesis by (simp only: storeInDragonfly_ok [OF c] snd_conv)
  qed
qed

lemma scoped_addMemory:
  assumes "scoped (redis s)"
  shows "scoped (redis (snd (addMemory rnd now fails content_arg userId_arg s)))"
proof (cases "schema_parse content_arg userId_arg")
  case (Inl e)
  then show ?thesis using assms by (simp add: addMemory_def)
next
  case (Inr p)
  obtain c u where p: "p = (c, u)" by (cases p)
  let ?m = "newMemory rnd now c u"
  have "redis (snd (addMemory rnd now fails content_arg userId_arg s))
          = snd (storeInDragonfly fails ?m (redis s))"
    by (cases "storeInDragonfly fails ?m (redis s)")
       (auto simp: addMemory_def Inr p Let_def split: option.splits)
  then show ?thesis
    using scoped_storeInDragonfly [OF assms newMemory_colon_free, where fails = fails] by simp
qed

lemma reachable_scoped: "reachable s \<Longrightarrow> scoped (redis s)"
proof (induction rule: reachable.induct)
  case start
  show ?case by (rule scoped_init)
next
  case (add s rnd now fails content_arg userId_arg)
  then show ?case by (simp add: scoped_addMemory)
next
  case (search s fails query_arg userId_arg)
  then show ?case by (simp add: searchMemories_server)
next
  case (restart s)
  then show ?case by simp
qed


lemma set_insert_by: "set (insert_by cmp x ys) = insert x (set ys)"
  by (induction ys) auto

lemma set_sort_by: "set (sort_by cmp xs) = set xs"
  by (induction xs) (simp_all add: sort_by_def set_insert_by)

lemma searchInDragonfly_scoped:
  assumes "scoped d" and "fst (searchInDragonfly fails u q d) = Inr ms"
  shows "\<forall>m\<in>set ms. userId m = u"
proof (cases "d (userSearchKey u)")
  case None
  then show ?thesis using assms(2)
    by (auto simp: searchInDragonfly_def redis_smembers_eq split: if_splits)
next
  case (Some v)
  show ?thesis
  proof (cases v)
    case (RString x)
    then show ?thesis using assms(2) Some
      by (auto simp: searchInDragonfly_def redis_smembers_eq split: if_splits)
  next
    case (RSet ids)
    have sc: "fst (scan fails 1 u q ids [] d) = Inr ms"
      using assms(2) Some RSet
      by (auto simp: searchInDragonfly_def redis_smembers_eq split: if_splits)
    have own: "\<forall>i\<in>set ids. \<forall>m. d (memoryKey u i) = Some (RString (Memory_JSON m))
                 \<longrightarrow> userId m = u"
      using assms(1) Some RSet unfolding scoped_def by blast
    show ?thesis by (rule scan_scoped [OF own sc]) simp
  qed
qed

lemma collectMatches_scoped:
  assumes "scoped (redis s)" and "m \<in> set (fst (collectMatches fails u q s))"
  shows "userId m = u"
proof (cases "fst (searchInDragonfly fails u q (redis s))")
  case (Inl e)
  then show ?thesis using assms(2)
    by (simp add: collectMatches_fallback searchFallback_def)
next
  case (Inr ms)
  then have "fst (collectMatches fails u q s) = ms"
    by (cases "searchInDragonfly fails u q (redis s)") (simp add: collectMatches_def)
  then show ?thesis using searchInDragonfly_scoped [OF assms(1) Inr] assms(2) by simp
qed

lemma reachable_add_each: "reachable s \<Longrightarrow> reachable (add_each fails u xs s)"
proof (induction xs arbitrary: s)
  case Nil
  then show ?case by simp
next
  case (Cons x xs)
  obtain rnd now c where x: "x = (rnd, now, c)" by (cases x)
  show ?case using Cons by (simp add: x reachable.add)
qed

text \<open>
  C9. In every state the server can reach, under every fault schedule, each memory
  among the matches of a search, which are the memories the digest is rendered from,
  has the userId the search was made for: on the Primary Store path because index and
  record keys are scoped by userId and identifiers have no colon, on the Fallback Store
  path because the filter compares the userId.
\<close>

theorem search_scoped_to_user:
  assumes "reachable s" and "m \<in> set (sortedMatches fails query u s)"
  shows "userId m = u"
proof -
  have "m \<in> set (fst (collectMatches fails u (toLowerCase query) s))"
    using assms(2) by (simp add: sortedMatches_def set_sort_by)
  then show ?thesis using collectMatches_scoped [OF reachable_scoped [OF assms(1)]] by blast
qed

text \<open>
  Two users with tea memories: each search returns the memories of its own user only,
  from the Primary Store and from the Fallback Store.
\<close>

theorem search_scoped_to_user_witness:
  "reachable two_users
   \<and> sortedMatches healthy ''tea'' ''u2'' two_users
       = [\<lparr>id' = ''3'', content = ''green tea'', userId = ''u2'', timestamp = Date 172800000\<rparr>]
   \<and> sortedMatches unreachable ''tea'' ''u2'' two_users
       = [\<lparr>id' = ''4'', content = ''iced tea'', userId = ''u2'', timestamp = Date 259200000\<rparr>]
   \<and> sortedMatches healthy ''tea'' ''u1'' two_users
       = [\<lparr>id' = ''1'', content = ''black tea'', userId = ''u1'', timestamp = Date 0\<rparr>]
   \<and> userId \<lparr>id' = ''3'', content = ''green tea'', userId = ''u2'',
              timestamp = Date 172800000\<rparr> = ''u2''"
proof -
  let ?m = "\<lparr>id' = ''3'', content = ''green tea'', userId = ''u2'', timestamp = Date 172800000\<rparr>"
  have r: "reachable two_users"
    unfolding two_users_def by (intro reachable_add_each reachable.start)
  have a: "sortedMatches healthy ''tea'' ''u2'' two_users = [?m]" by code_simp
  have b: "sortedMatches unreachable ''tea'' ''u2'' two_users
       = [\<lparr>id' = ''4'', content = ''iced tea'', userId = ''u2'', timestamp = Date 259200000\<rparr>]"
    by code_simp
  have c: "sortedMatches healthy ''tea'' ''u1'' two_users
       = [\<lparr>id' = ''1'', content = ''black tea'', userId = ''u1'', timestamp = Date 0\<rparr>]"
    by code_simp
  have m: "?m \<in> set (sortedMatches healthy ''tea'' ''u2'' two_users)" by (simp add: a)
  show ?thesis using r a b c search_scoped_to_user [OF r m] by blast
qed

subsection \<open>A memory just written is found\<close>

lemma JSON_stringify_eq: "JSON_stringify m = Memory_JSON m"
  by (cases m) (simp add: JSON_stringify_def)

lemma storeInDragonfly_None:
  assumes "fst (storeInDragonfly fails m d) = None"
  shows "\<not> fails 0 \<and> \<not> fails 1 \<and> \<not> holds_string d (userSearchKey (userId m))"
proof -
  have "\<not> fails 0" using assms storeInDragonfly_set_fails [of fails m d] by auto
  moreover have "\<not> (fails 1 \<or> holds_string d (userSearchKey (userId m)))"
    using assms calculation storeInDragonfly_sadd_fails [of fails d m] by auto
  ultimately show ?thesis by blast
qed

lemma index_with_mem: "i \<in> set (index_with i v)"
  by (simp add: index_with_def split: option.splits rvalue.splits)

lemma written_on_primary_found:
  assumes "fst (storeInDragonfly fails m d) = None"
    and "includes_str (toLowerCase (content m)) q"
    and "fst (searchInDragonfly fails' (userId m) q (snd (storeInDragonfly fails m d))) = Inr ms"
  shows "m \<in> set ms"
proof -
  let ?k = "memoryKey (userId m) (id' m)" and ?sk = "userSearchKey (userId m)"
  let ?ids = "index_with (id' m) (d ?sk)"
  let ?d' = "d(?k \<mapsto> RString (JSON_stringify m), ?sk \<mapsto> RSet ?ids)"
  have c: "\<not> fails 0" "\<not> fails 1" "\<not> holds_string d ?sk"
    using storeInDragonfly_None [OF assms(1)] by auto
  have d': "snd (storeInDragonfly fails m d) = ?d'"
    by (simp add: storeInDragonfly_ok [OF c])
  have idx: "?d' ?sk = Some (RSet ?ids)" by simp
  have rec: "?d' ?k = Some (RString (Memory_JSON m))"
    using keys_differ [of "userId m" "id' m" "userId m"] by (simp add: JSON_stringify_eq)
  have "fst (scan fails' 1 (userId m) q ?ids [] ?d') = Inr ms"
    using assms(3) unfolding d'
    by (simp add: searchInDragonfly_def redis_smembers_eq idx split: if_splits)
  then show ?thesis
    using scan_finds [where d = ?d' and u = "userId m" and i = "id' m" and ids = ?ids and m = m
        and q = q, OF index_with_mem rec assms(2)]
    by blast
qed

lemma new_memory_collected:
  assumes "schema_parse content_arg userId_arg = Inr (c, u)"
    and "includes_str (toLowerCase c) q"
    and "s' = snd (addMemory rnd now fails content_arg userId_arg s)"
    and "write_on_primary fails (newMemory rnd now c u) (redis s)
           = search_on_primary fails' u q (redis s')"
  shows "newMemory rnd now c u \<in> set (fst (collectMatches fails' u q s'))"
proof -
  let ?m = "newMemory rnd now c u"
  have mu: "userId ?m = u" and mc: "content ?m = c" by (simp_all add: newMemory_def)
  obtain r d' where st: "storeInDragonfly fails ?m (redis s) = (r, d')"
    by (cases "storeInDragonfly fails ?m (redis s)")
  have s': "s' = (case r of None \<Rightarrow> s\<lparr>redis := d'\<rparr>
                   | Some e \<Rightarrow> \<lparr>memories = memories s @ [?m], redis = d'\<rparr>)"
    using assms(1,3) st by (simp add: addMemory_def Let_def split: option.splits)
  have rd: "redis s' = d'" using s' by (simp split: option.splits)
  show ?thesis
  proof (cases r)
    case None
    then have w: "fst (storeInDragonfly fails ?m (redis s)) = None" using st by simp
    then have "search_on_primary fails' u q d'"
      using assms(4) rd by (simp add: write_on_primary_def)
    then obtain ms where ms: "fst (searchInDragonfly fails' u q d') = Inr ms"
      by (auto simp: search_on_primary_def split: sum.splits)
    have "fst (searchInDragonfly fails' (userId ?m) q (snd (storeInDragonfly fails ?m (redis s))))
            = Inr ms"
      using ms st mu by simp
    then have "?m \<in> set ms"
      using written_on_primary_found [OF w] assms(2) mc by simp
    moreover have "fst (collectMatches fails' u q s') = ms"
      using ms rd by (cases "searchInDragonfly fails' u q d'") (simp add: collectMatches_def)
    ultimately show ?thesis by simp
  next
    case (Some e)
    then have "\<not> write_on_primary fails ?m (redis s)"
      using st by (simp add: write_on_primary_def)
    then have "\<not> search_on_primary fails' u q (redis s')" using assms(4) by simp
    then obtain e' where "fst (searchInDragonfly fails' u q (redis s')) = Inl e'"
      by (auto simp: search_on_primary_def split: sum.splits)
    then have "fst (collectMatches fails' u q s') = searchFallback u q (memories s')"
      by (rule collectMatches_fallback)
    moreover have "memories s' = memories s @ [?m]" using s' Some by simp
    ultimately show ?thesis using assms(2) mu mc by (simp add: searchFallback_def)
  qed
qed

lemma in_take_sorted:
  assumes "sorted_wrt (\<lambda>a b. f b \<le> f a) xs" and "x \<in> set xs"
    and "length (filter (\<lambda>y. (f x :: int) \<le> f y) xs) \<le> n"
  shows "x \<in> set (take n xs)"
proof -
  obtain i where i: "i < length xs" and xi: "xs ! i = x"
    using assms(2) by (auto simp: in_set_conv_nth)
  have all: "\<forall>y\<in>set (take (Suc i) xs). f x \<le> f y"
  proof
    fix y assume "y \<in> set (take (Suc i) xs)"
    then obtain j where j: "j < Suc i" and yj: "xs ! j = y"
      using i by (auto simp: in_set_conv_nth)
    show "f x \<le> f y"
    proof (cases "j = i")
      case True
      then show ?thesis using xi yj by simp
    next
      case False
      then have "j < i" using j by simp
      then show ?thesis using assms(1) i xi yj by (auto simp: sorted_wrt_iff_nth_less)
    qed
  qed
  have "filter (\<lambda>y. f x \<le> f y) xs
          = filter (\<lambda>y. f x \<le> f y) (take (Suc i) xs) @ filter (\<lambda>y. f x \<le> f y) (drop (Suc i) xs)"
    by (metis append_take_drop_id filter_append)
  moreover have "filter (\<lambda>y. f x \<le> f y) (take (Suc i) xs) = take (Suc i) xs"
    using all by (simp add: filter_id_conv)
  ultimately have "Suc i \<le> length (filter (\<lambda>y. f x \<le> f y) xs)"
    using i by simp
  then have "i < n" using assms(3) by simp
  then show ?thesis using i xi by (auto simp: in_set_conv_nth)
qed

lemma sublist_concat_mem: "x \<in> set xss \<Longrightarrow> sublist x (concat xss)"
proof (induction xss)
  case Nil
  then show ?case by simp
next
  case (Cons y xss)
  show ?case
  proof (cases "x = y")
    case True
    then show ?thesis by simp
  next
    case False
    then have "sublist x (concat xss)" using Cons by simp
    then show ?thesis by (auto simp: sublist_def) (metis append.assoc)
  qed
qed

lemma join_includes: "l \<in> set ls \<Longrightarrow> sublist l (join sep ls)"
proof (cases ls)
  case Nil
  then show "l \<in> set ls \<Longrightarrow> ?thesis" by simp
next
  case (Cons y ys)
  assume l: "l \<in> set ls"
  show ?thesis
  proof (cases "l = y")
    case True
    then show ?thesis by (simp add: join_def Cons)
  next
    case False
    then have "sep @ l \<in> set (map (\<lambda>z. sep @ z) ys)" using l Cons by auto
    then have "sublist (sep @ l) (concat (map (\<lambda>z. sep @ z) ys))"
      by (rule sublist_concat_mem)
    moreover have "sublist l (sep @ l)" by simp
    ultimately have "sublist l (concat (map (\<lambda>z. sep @ z) ys))"
      using sublist_order.order_trans by blast
    then have "sublist l (y @ concat (map (\<lambda>z. sep @ z) ys))"
      by (auto simp: sublist_def) (metis append.assoc)
    then show ?thesis by (simp add: join_def Cons)
  qed
qed

lemma digest_lines_mem: "m \<in> set ms \<Longrightarrow> \<exists>i. digest_line i m \<in> set (digest_lines k ms)"
proof (induction ms arbitrary: k)
  case Nil
  then show ?case by simp
next
  case (Cons x ms)
  show ?case
  proof (cases "m = x")
    case True
    then have "digest_line k m \<in> set (digest_lines k (x # ms))" by simp
    then show ?thesis by blast
  next
    case False
    then have "m \<in> set ms" using Cons.prems by simp
    then obtain i where "digest_line i m \<in> set (digest_lines (Suc k) ms)"
      using Cons.IH by blast
    then have "digest_line i m \<in> set (digest_lines k (x # ms))" by simp
    then show ?thesis by blast
  qed
qed

lemma digest_line_includes: "sublist (content m) (digest_line i m)"
proof -
  have "digest_line i m
          = (decimal (i + 1) @ ''. ['' @ isoDate (time_value m) @ ''] '') @ content m"
    by (simp add: digest_line_def)
  then show ?thesis by (metis sublist_append_leftI)
qed

lemma found_text_includes: "sublist x r \<Longrightarrow> sublist x (found_text n query r)"
  unfolding found_text_def sublist_def by (metis append.assoc)

lemma format_results_includes:
  assumes "m \<in> set (take 10 ms)" and "valid_dates (take 10 ms)"
  shows "\<exists>text. format_results query ms = Inr text \<and> includes_str text (content m)"
proof -
  have ne: "ms \<noteq> []" using assms(1) by auto
  obtain i where "digest_line i m \<in> set (digest_lines 0 (take 10 ms))"
    using digest_lines_mem [OF assms(1)] by blast
  then have "sublist (digest_line i m) (join [CHR 0x0A, CHR 0x0A] (digest_lines 0 (take 10 ms)))"
    by (rule join_includes)
  then have "sublist (content m) (join [CHR 0x0A, CHR 0x0A] (digest_lines 0 (take 10 ms)))"
    using digest_line_includes sublist_order.order_trans by blast
  then have "sublist (content m)
     (found_text (length ms) query (join [CHR 0x0A, CHR 0x0A] (digest_lines 0 (take 10 ms))))"
    by (rule found_text_includes)
  then show ?thesis
    using format_results_found [OF ne assms(2), of query] by (simp add: includes_str_def)
qed

lemma valid_dates_take: "valid_dates ms \<Longrightarrow> valid_dates (take n ms)"
  using set_take_subset [of n ms] by (auto simp: valid_dates_set)

lemma add_then_search_found:
  assumes "schema_parse content_arg userId_arg = Inr (c, u)"
    and "schema_parse query_arg userId_arg' = Inr (query, u)"
    and "includes_str (toLowerCase c) (toLowerCase query)"
    and "s' = snd (addMemory rnd now fails content_arg userId_arg s)"
    and "write_on_primary fails (newMemory rnd now c u) (redis s)
           = search_on_primary fails' u (toLowerCase query) (redis s')"
    and "ms = sortedMatches fails' query u s'"
    and "valid_dates ms"
    and "length (filter (\<lambda>x. now \<le> time_value x) ms) \<le> 10"
  shows "\<exists>text. fst (searchMemories fails' query_arg userId_arg' s') = Inr text
                \<and> includes_str text c"
proof -
  let ?m = "newMemory rnd now c u"
  let ?xs = "fst (collectMatches fails' u (toLowerCase query) s')"
  have ms: "ms = sort_by compareFn ?xs" using assms(6) by (simp add: sortedMatches_def)
  have "?m \<in> set ?xs" by (rule new_memory_collected [OF assms(1,3,4,5)])
  then have m: "?m \<in> set ms" by (simp add: ms set_sort_by)
  have v: "valid_dates ?xs" using assms(7) by (simp add: ms valid_dates_set set_sort_by)
  have "ms = sort_key (\<lambda>m. - time_value m) ?xs" by (simp add: ms sort_by_compareFn [OF v])
  then have "sorted (map (\<lambda>m. - time_value m) ms)" by simp
  then have srt: "sorted_wrt (\<lambda>a b. time_value b \<le> time_value a) ms"
    by (simp add: sorted_descending)
  have t: "time_value ?m = now" by (simp add: newMemory_def time_value_def)
  have "length (filter (\<lambda>y. time_value ?m \<le> time_value y) ms) \<le> 10"
    using assms(8) by (simp add: t)
  then have top: "?m \<in> set (take 10 ms)" by (rule in_take_sorted [OF srt m])
  have "content ?m = c" by (simp add: newMemory_def)
  then have "\<exists>text. format_results query ms = Inr text \<and> includes_str text c"
    using format_results_includes [OF top valid_dates_take [OF assms(7)], of query] by simp
  moreover have "fst (searchMemories fails' query_arg userId_arg' s') = format_results query ms"
    using assms(2,6) by (simp add: searchMemories_unfold)
  ultimately show ?thesis by simp
qed

subsection \<open>Dates in the states the server reaches\<close>

lemma scan_records:
  assumes "\<forall>key m. d key = Some (RString (Memory_JSON m)) \<longrightarrow> P m"
  shows "fst (scan fails k u q ids acc d) = Inr ms \<Longrightarrow> \<forall>m\<in>set acc. P m
           \<Longrightarrow> \<forall>m\<in>set ms. P m"
proof (induction ids arbitrary: k acc)
  case Nil
  then show ?case by simp
next
  case (Cons j ids)
  from Cons.prems(1) consider
      (skip) "fst (scan fails (Suc k) u q ids acc d) = Inr ms"
    | (push) m where "d (memoryKey u j) = Some (RString (Memory_JSON m))"
        and "fst (scan fails (Suc k) u q ids (acc @ [m]) d) = Inr ms"
    by (auto simp: scan_Cons JSON_parse_def simp del: scan.simps
        split: if_splits option.splits rvalue.splits sum.splits stored.splits)
  then show ?case
  proof cases
    case skip
    then show ?thesis using Cons.IH [OF _ Cons.prems(2)] by blast
  next
    case (push m)
    have "\<forall>x\<in>set (acc @ [m]). P x"
      using Cons.prems(2) assms push(1) by auto
    then show ?thesis using Cons.IH [OF push(2)] by blast
  qed
qed

lemma storeInDragonfly_records:
  assumes "snd (storeInDragonfly fails m d) key = Some (RString (Memory_JSON x))"
  shows "d key = Some (RString (Memory_JSON x)) \<or> timestamp x = timestamp m"
  using assms
  by (auto simp: storeInDragonfly_def redis_set_def redis_sadd_def JSON_stringify_def
      split: if_splits option.splits rvalue.splits)

lemma dated_init: "dated init"
  by (simp add: dated_def init_def valid_dates_def)

lemma dated_addMemory:
  assumes "dated s"
  shows "dated (snd (addMemory rnd now fails content_arg userId_arg s))"
proof (cases "schema_parse content_arg userId_arg")
  case (Inl e)
  then show ?thesis using assms by (simp add: addMemory_def)
next
  case (Inr p)
  obtain c u where p: "p = (c, u)" by (cases p)
  let ?m = "newMemory rnd now c u"
  let ?s' = "snd (addMemory rnd now fails content_arg userId_arg s)"
  have t: "timestamp ?m \<noteq> Invalid_Date" by (simp add: newMemory_def)
  have r: "redis ?s' = snd (storeInDragonfly fails ?m (redis s))"
    by (cases "storeInDragonfly fails ?m (redis s)")
       (auto simp: addMemory_def Inr p Let_def split: option.splits)
  have m: "memories ?s' = memories s \<or> memories ?s' = memories s @ [?m]"
    by (cases "storeInDragonfly fails ?m (redis s)")
       (auto simp: addMemory_def Inr p Let_def split: option.splits)
  have 1: "valid_dates (memories ?s')"
    using m assms t by (auto simp: dated_def valid_dates_def)
  have 2: "timestamp x \<noteq> Invalid_Date"
    if "redis ?s' key = Some (RString (Memory_JSON x))" for key x
    using storeInDragonfly_records [of fails ?m "redis s" key x] that r assms t
    by (auto simp: dated_def)
  show ?thesis unfolding dated_def using 1 2 by blast
qed

lemma reachable_dated: "reachable s \<Longrightarrow> dated s"
proof (induction rule: reachable.induct)
  case start
  show ?case by (rule dated_init)
next
  case (add s rnd now fails content_arg userId_arg)
  then show ?case by (simp add: dated_addMemory)
next
  case (search s fails query_arg userId_arg)
  then show ?case by (simp add: searchMemories_server)
next
  case (restart s)
  then show ?case by (simp add: dated_def valid_dates_def)
qed

lemma collectMatches_dated:
  assumes "dated s"
  shows "valid_dates (fst (collectMatches fails u q s))"
proof (cases "fst (searchInDragonfly fails u q (redis s))")
  case (Inl e)
  then have "fst (collectMatches fails u q s) = searchFallback u q (memories s)"
    by (rule collectMatches_fallback)
  then show ?thesis using assms by (auto simp: dated_def valid_dates_set searchFallback_def)
next
  case (Inr ms)
  then have c: "fst (collectMatches fails u q s) = ms"
    by (cases "searchInDragonfly fails u q (redis s)") (simp add: collectMatches_def)
  have "fst (scan fails 1 u q [] [] (redis s)) = Inr ms
        \<or> (\<exists>ids. fst (scan fails 1 u q ids [] (redis s)) = Inr ms)"
    using Inr
    by (auto simp: searchInDragonfly_def redis_smembers_eq
        split: if_splits option.splits rvalue.splits)
  then obtain ids where sc: "fst (scan fails 1 u q ids [] (redis s)) = Inr ms" by blast
  have rec: "\<forall>key m. redis s key = Some (RString (Memory_JSON m)) \<longrightarrow> timestamp m \<noteq> Invalid_Date"
    using assms by (simp add: dated_def)
  have "\<forall>m\<in>set ms. timestamp m \<noteq> Invalid_Date"
    by (rule scan_records [OF rec sc]) simp
  then show ?thesis by (simp add: c valid_dates_set)
qed

lemma reachable_valid_dates:
  assumes "reachable s"
  shows "valid_dates (fst (collectMatches fails u q s))"
  by (rule collectMatches_dated [OF reachable_dated [OF assms]])

lemma reachable_sorted_valid_dates:
  assumes "reachable s"
  shows "valid_dates (sortedMatches fails query u s)"
  using reachable_valid_dates [OF assms, of fails u "toLowerCase query"]
  by (simp add: sortedMatches_def valid_dates_set set_sort_by)

subsection \<open>Ordering, truncation and retrieval in the states the server reaches\<close>

lemma scan_collects:
  "fst (scan fails k u q ids acc d) = Inr ms \<Longrightarrow> ms = acc @ records_matching u q d ids"
proof (induction ids arbitrary: k acc)
  case Nil
  then show ?case by simp
next
  case (Cons j ids)
  from Cons.prems consider
      (skip) "fst (scan fails (Suc k) u q ids acc d) = Inr ms"
        and "records_matching u q d (j # ids) = records_matching u q d ids"
    | (push) m where "fst (scan fails (Suc k) u q ids (acc @ [m]) d) = Inr ms"
        and "records_matching u q d (j # ids) = m # records_matching u q d ids"
    by (auto simp: scan_Cons JSON_parse_def simp del: scan.simps
        split: if_splits option.splits rvalue.splits sum.splits stored.splits)
  then show ?case
  proof cases
    case skip
    then show ?thesis using Cons.IH [of "Suc k" acc] by simp
  next
    case (push m)
    then show ?thesis using Cons.IH [of "Suc k" "acc @ [m]"] by simp
  qed
qed

lemma collectMatches_primary:
  assumes "search_on_primary fails u q (redis s)"
  shows "fst (collectMatches fails u q s)
           = records_matching u q (redis s) (members_of (redis s (userSearchKey u)))"
proof -
  obtain ms where ms: "fst (searchInDragonfly fails u q (redis s)) = Inr ms"
    using assms by (auto simp: search_on_primary_def split: sum.splits)
  have c: "fst (collectMatches fails u q s) = ms"
    using ms by (cases "searchInDragonfly fails u q (redis s)") (simp add: collectMatches_def)
  have "fst (scan fails 1 u q (members_of (redis s (userSearchKey u))) [] (redis s)) = Inr ms"
    using ms
    by (auto simp: searchInDragonfly_def redis_smembers_eq members_of_def
        split: if_splits option.splits rvalue.splits)
  then show ?thesis using scan_collects [of fails 1 u q _ "[]" "redis s" ms] c by simp
qed

lemma collectMatches_not_primary:
  assumes "\<not> search_on_primary fails u q (redis s)"
  shows "fst (collectMatches fails u q s) = searchFallback u q (memories s)"
proof -
  obtain e where "fst (searchInDragonfly fails u q (redis s)) = Inl e"
    using assms by (auto simp: search_on_primary_def split: sum.splits)
  then show ?thesis by (rule collectMatches_fallback)
qed

text \<open>
  C5, as the code has it. In every state the server reaches, the matches of a search,
  from either store, come out of line 180 ordered by timestamp, the most recent first,
  and those of equal timestamp in the order in which the search collected them: the
  sorted list is a rearrangement of the collected one, it descends in time, and for
  every time \<open>t\<close> its memories of time \<open>t\<close> are in their collected order. The collected
  order is, on the Fallback Store path, that of the Fallback Store sequence, to which
  every write appends, and so the order of writing; on the Primary Store path it is the
  order in which the index set enumerates the identifiers, each standing for the record
  its key holds now.
\<close>

theorem sorted_by_timestamp_stable:
  assumes "reachable s"
  shows "sorted_wrt (\<lambda>a b. time_value b \<le> time_value a) (sortedMatches fails query u s)
       \<and> mset (sortedMatches fails query u s)
           = mset (fst (collectMatches fails u (toLowerCase query) s))
       \<and> filter (\<lambda>m. time_value m = t) (sortedMatches fails query u s)
           = filter (\<lambda>m. time_value m = t) (fst (collectMatches fails u (toLowerCase query) s))
       \<and> fst (collectMatches fails u (toLowerCase query) s)
           = (if search_on_primary fails u (toLowerCase query) (redis s)
              then records_matching u (toLowerCase query) (redis s)
                     (members_of (redis s (userSearchKey u)))
              else searchFallback u (toLowerCase query) (memories s))"
proof -
  have 1: "sorted_wrt (\<lambda>a b. time_value b \<le> time_value a) (sortedMatches fails query u s)
       \<and> mset (sortedMatches fails query u s)
           = mset (fst (collectMatches fails u (toLowerCase query) s))
       \<and> filter (\<lambda>m. time_value m = t) (sortedMatches fails query u s)
           = filter (\<lambda>m. time_value m = t) (fst (collectMatches fails u (toLowerCase query) s))"
    by (rule sorted_stable_general [OF reachable_valid_dates [OF assms]])
  have 2: "fst (collectMatches fails u (toLowerCase query) s)
           = (if search_on_primary fails u (toLowerCase query) (redis s)
              then records_matching u (toLowerCase query) (redis s)
                     (members_of (redis s (userSearchKey u)))
              else searchFallback u (toLowerCase query) (memories s))"
    using collectMatches_primary [of fails u "toLowerCase query" s]
      collectMatches_not_primary [of fails u "toLowerCase query" s]
    by simp
  show ?thesis using 1 2 by blast
qed

text \<open>
  Three memories written to the Primary Store on three consecutive days come back
  newest first, and the digest lists them in that order. Ten memories written to the
  Fallback Store in one millisecond come back in the order in which they were written.
\<close>

theorem sorted_by_timestamp_stable_witness:
  "reachable three_teas
   \<and> search_on_primary healthy ''u1'' (toLowerCase ''TEA'') (redis three_teas)
   \<and> map time_value (fst (collectMatches healthy ''u1'' (toLowerCase ''TEA'') three_teas))
       = [0, 86400000, 172800000]
   \<and> map time_value (sortedMatches healthy ''TEA'' ''u1'' three_teas)
       = [172800000, 86400000, 0]
   \<and> sorted_wrt (\<lambda>a b. time_value b \<le> time_value a) (sortedMatches healthy ''TEA'' ''u1'' three_teas)
   \<and> fst (searchMemories healthy (Given ''TEA'') (Given ''u1'') three_teas)
       = Inr (''Found 3 matching memories for '' @ [CHR 0x22] @ ''TEA'' @ [CHR 0x22] @ '':''
              @ [CHR 0x0A, CHR 0x0A] @ ''1. [1970-01-03] mint tea''
              @ [CHR 0x0A, CHR 0x0A] @ ''2. [1970-01-02] green tea''
              @ [CHR 0x0A, CHR 0x0A] @ ''3. [1970-01-01] black tea'')
   \<and> reachable ten_teas
   \<and> \<not> search_on_primary unreachable ''u1'' (toLowerCase ''tea'') (redis ten_teas)
   \<and> sortedMatches unreachable ''tea'' ''u1'' ten_teas = memories ten_teas
   \<and> concat (map id' (memories ten_teas)) = ''0123456789''
   \<and> filter (\<lambda>m. time_value m = 86400000) (sortedMatches unreachable ''tea'' ''u1'' ten_teas)
       = filter (\<lambda>m. time_value m = 86400000)
           (fst (collectMatches unreachable ''u1'' (toLowerCase ''tea'') ten_teas))
   \<and> fst (collectMatches unreachable ''u1'' (toLowerCase ''tea'') ten_teas)
       = searchFallback ''u1'' (toLowerCase ''tea'') (memories ten_teas)"
proof -
  have r: "reachable three_teas"
    unfolding three_teas_def by (intro reachable_add_each reachable.start)
  have r': "reachable ten_teas"
    unfolding ten_teas_def by (intro reachable_add_each reachable.start)
  have p: "search_on_primary healthy ''u1'' (toLowerCase ''TEA'') (redis three_teas)"
    by code_simp
  have p': "\<not> search_on_primary unreachable ''u1'' (toLowerCase ''tea'') (redis ten_teas)"
    by code_simp
  have a: "map time_value (fst (collectMatches healthy ''u1'' (toLowerCase ''TEA'') three_teas))
             = [0, 86400000, 172800000]"
    by code_simp
  have b: "map time_value (sortedMatches healthy ''TEA'' ''u1'' three_teas)
             = [172800000, 86400000, 0]"
    by code_simp
  have c: "fst (searchMemories healthy (Given ''TEA'') (Given ''u1'') three_teas)
       = Inr (''Found 3 matching memories for '' @ [CHR 0x22] @ ''TEA'' @ [CHR 0x22] @ '':''
              @ [CHR 0x0A, CHR 0x0A] @ ''1. [1970-01-03] mint tea''
              @ [CHR 0x0A, CHR 0x0A] @ ''2. [1970-01-02] green tea''
              @ [CHR 0x0A, CHR 0x0A] @ ''3. [1970-01-01] black tea'')"
    by code_simp
  have d: "sortedMatches unreachable ''tea'' ''u1'' ten_teas = memories ten_teas"
    by code_simp
  have e: "concat (map id' (memories ten_teas)) = ''0123456789''"
    by code_simp
  note t1 = sorted_by_timestamp_stable [OF r, of healthy "''TEA''" "''u1''" 0]
  note t2 = sorted_by_timestamp_stable [OF r', of unreachable "''tea''" "''u1''" 86400000]
  have f: "fst (collectMatches unreachable ''u1'' (toLowerCase ''tea'') ten_teas)
       = searchFallback ''u1'' (toLowerCase ''tea'') (memories ten_teas)"
    using t2 p' by simp
  show ?thesis using r r' p p' a b c d e f t1 t2 by blast
qed

text \<open>
  Three writes of one millisecond to the Primary Store, the third drawing the identifier
  of the first: the record of \<open>i\<close> is overwritten, the index still enumerates \<open>i\<close> before
  \<open>j\<close>, and \<open>tea c\<close>, written last, is listed before \<open>tea b\<close>.
\<close>

theorem ties_not_in_storage_order_counterexample:
  "reachable collide
   \<and> map content (sortedMatches healthy ''tea'' ''u1'' collide) = [''tea c'', ''tea b'']
   \<and> map time_value (sortedMatches healthy ''tea'' ''u1'' collide) = [5, 5]
   \<and> redis collide ''search:u1'' = Some (RSet [''i'', ''j''])"
proof -
  have r: "reachable collide"
    unfolding collide_def by (intro reachable_add_each reachable.start)
  have e: "map content (sortedMatches healthy ''tea'' ''u1'' collide) = [''tea c'', ''tea b'']
   \<and> map time_value (sortedMatches healthy ''tea'' ''u1'' collide) = [5, 5]
   \<and> redis collide ''search:u1'' = Some (RSet [''i'', ''j''])"
    by code_simp
  show ?thesis using r e by blast
qed

text \<open>
  C6. In every state the server reaches, when more than ten memories match, the reply
  is the header with the full number of matches, followed by exactly ten lines, those of
  the first ten matches in order, joined by a blank line. The line of the match at
  position \<open>i\<close> (from 0) is \<open>decimal (i + 1)\<close>, a dot, the date-only ISO text in
  brackets, and the content (\<open>digest_line\<close>).
\<close>

theorem digest_truncated:
  assumes "reachable s"
    and "schema_parse query_arg userId_arg = Inr (query, u)"
    and "ms = sortedMatches fails query u s"
    and "10 < length ms"
  shows "fst (searchMemories fails query_arg userId_arg s)
           = Inr (''Found '' @ decimal (length ms) @ '' matching memories for '' @ [CHR 0x22]
                  @ query @ [CHR 0x22] @ '':'' @ [CHR 0x0A, CHR 0x0A]
                  @ join [CHR 0x0A, CHR 0x0A] (digest_lines 0 (take 10 ms)))
         \<and> length (digest_lines 0 (take 10 ms)) = 10"
proof -
  have "valid_dates ms"
    using reachable_sorted_valid_dates [OF assms(1)] assms(3) by simp
  then have "valid_dates (take 10 ms)" by (rule valid_dates_take)
  then show ?thesis by (rule digest_truncated_general [OF assms(2-4)])
qed

text \<open>Fifteen matches: ten lines, and the header says 15.\<close>

theorem digest_truncated_witness:
  "reachable fifteen_teas
   \<and> schema_parse (Given ''tea'') (Given ''u1'') = Inr (''tea'', ''u1'')
   \<and> length (sortedMatches unreachable ''tea'' ''u1'' fifteen_teas) = 15
   \<and> fst (searchMemories unreachable (Given ''tea'') (Given ''u1'') fifteen_teas)
       = Inr (''Found 15 matching memories for '' @ [CHR 0x22] @ ''tea'' @ [CHR 0x22] @ '':''
              @ [CHR 0x0A, CHR 0x0A] @ ''1. [1970-01-15] tea 14''
              @ [CHR 0x0A, CHR 0x0A] @ ''2. [1970-01-14] tea 13''
              @ [CHR 0x0A, CHR 0x0A] @ ''3. [1970-01-13] tea 12''
              @ [CHR 0x0A, CHR 0x0A] @ ''4. [1970-01-12] tea 11''
              @ [CHR 0x0A, CHR 0x0A] @ ''5. [1970-01-11] tea 10''
              @ [CHR 0x0A, CHR 0x0A] @ ''6. [1970-01-10] tea 9''
              @ [CHR 0x0A, CHR 0x0A] @ ''7. [1970-01-09] tea 8''
              @ [CHR 0x0A, CHR 0x0A] @ ''8. [1970-01-08] tea 7''
              @ [CHR 0x0A, CHR 0x0A] @ ''9. [1970-01-07] tea 6''
              @ [CHR 0x0A, CHR 0x0A] @ ''10. [1970-01-06] tea 5'')"
proof -
  let ?ms = "sortedMatches unreachable ''tea'' ''u1'' fifteen_teas"
  have r: "reachable fifteen_teas"
    unfolding fifteen_teas_def by (intro reachable_add_each reachable.start)
  have a: "schema_parse (Given ''tea'') (Given ''u1'') = Inr (''tea'', ''u1'')"
    by (simp add: schema_parse_def z_string_def z_string_default_def)
  have n: "length ?ms = 15" by code_simp
  then have b: "10 < length ?ms" by simp
  have e: "Inr (''Found '' @ decimal (length ?ms) @ '' matching memories for '' @ [CHR 0x22]
                  @ ''tea'' @ [CHR 0x22] @ '':'' @ [CHR 0x0A, CHR 0x0A]
                  @ join [CHR 0x0A, CHR 0x0A] (digest_lines 0 (take 10 ?ms)))
       = (Inr (''Found 15 matching memories for '' @ [CHR 0x22] @ ''tea'' @ [CHR 0x22] @ '':''
              @ [CHR 0x0A, CHR 0x0A] @ ''1. [1970-01-15] tea 14''
              @ [CHR 0x0A, CHR 0x0A] @ ''2. [1970-01-14] tea 13''
              @ [CHR 0x0A, CHR 0x0A] @ ''3. [1970-01-13] tea 12''
              @ [CHR 0x0A, CHR 0x0A] @ ''4. [1970-01-12] tea 11''
              @ [CHR 0x0A, CHR 0x0A] @ ''5. [1970-01-11] tea 10''
              @ [CHR 0x0A, CHR 0x0A] @ ''6. [1970-01-10] tea 9''
              @ [CHR 0x0A, CHR 0x0A] @ ''7. [1970-01-09] tea 8''
              @ [CHR 0x0A, CHR 0x0A] @ ''8. [1970-01-08] tea 7''
              @ [CHR 0x0A, CHR 0x0A] @ ''9. [1970-01-07] tea 6''
              @ [CHR 0x0A, CHR 0x0A] @ ''10. [1970-01-06] tea 5'') :: exn + string)"
    by code_simp
  note t = digest_truncated [OF r a refl b]
  show ?thesis using r a n t e by simp
qed

text \<open>
  C1, as the code has it. In every state the server reaches, \<open>addMemory\<close> with a content
  and a userId, then at once \<open>searchMemories\<close> with that userId and a query whose
  lower-case form occurs in the lower-case content, answers with a digest that contains
  the content, when
  \<^item> the two calls are served by the same store: both \<open>try\<close> blocks end normally
    (Primary Store), or both throw (Fallback Store, as under forced failure);
  \<^item> at most ten matches, the new memory among them, carry a time at or after the time
    of the new memory, so that it is among the first ten of the sorted matches.
\<close>

theorem add_then_search_finds:
  assumes "reachable s"
    and "includes_str (toLowerCase c) (toLowerCase query)"
    and "s' = snd (addMemory rnd now fails (Given c) (Given u) s)"
    and "write_on_primary fails (newMemory rnd now c u) (redis s)
           = search_on_primary fails' u (toLowerCase query) (redis s')"
    and "ms = sortedMatches fails' query u s'"
    and "length (filter (\<lambda>x. now \<le> time_value x) ms) \<le> 10"
  shows "\<exists>text. fst (searchMemories fails' (Given query) (Given u) s') = Inr text
                \<and> includes_str text c"
proof -
  have a: "schema_parse (Given c) (Given u) = Inr (c, u)"
    by (simp add: schema_parse_def z_string_def z_string_default_def)
  have q: "schema_parse (Given query) (Given u) = Inr (query, u)"
    by (simp add: schema_parse_def z_string_def z_string_default_def)
  have "reachable s'" using assms(1,3) by (simp add: reachable.add)
  then have v: "valid_dates ms"
    using reachable_sorted_valid_dates assms(5) by simp
  show ?thesis by (rule add_then_search_found [OF a q assms(2-5) v assms(6)])
qed

text \<open>
  The write of \<open>likes tea\<close> for \<open>u1\<close> under forced failure of the Primary Store is found
  by the search for \<open>tea\<close>; the write of \<open>Quinn loves OCaml\<close> to the Primary Store is found
  by the search for \<open>ocaml\<close>.
\<close>

theorem add_then_search_finds_witness:
  "reachable init
   \<and> includes_str (toLowerCase ''likes tea'') (toLowerCase ''tea'')
   \<and> \<not> write_on_primary unreachable (newMemory [1] 0 ''likes tea'' ''u1'') (redis init)
   \<and> \<not> search_on_primary unreachable ''u1'' (toLowerCase ''tea'') (redis tea_written)
   \<and> length (filter (\<lambda>x. 0 \<le> time_value x) (sortedMatches unreachable ''tea'' ''u1'' tea_written))
        \<le> 10
   \<and> (\<exists>text. fst (searchMemories unreachable (Given ''tea'') (Given ''u1'') tea_written) = Inr text
               \<and> includes_str text ''likes tea'')
   \<and> fst (searchMemories unreachable (Given ''tea'') (Given ''u1'') tea_written)
       = Inr (''Found 1 matching memories for '' @ [CHR 0x22] @ ''tea'' @ [CHR 0x22] @ '':''
              @ [CHR 0x0A, CHR 0x0A] @ ''1. [1970-01-01] likes tea'')
   \<and> includes_str (toLowerCase ''Quinn loves OCaml'') (toLowerCase ''ocaml'')
   \<and> write_on_primary healthy (newMemory [2] 0 ''Quinn loves OCaml'' ''u1'') (redis init)
   \<and> search_on_primary healthy ''u1'' (toLowerCase ''ocaml'') (redis ocaml_written)
   \<and> (\<exists>text. fst (searchMemories healthy (Given ''ocaml'') (Given ''u1'') ocaml_written) = Inr text
               \<and> includes_str text ''Quinn loves OCaml'')"
proof -
  have r: "reachable init" by (rule reachable.start)
  have a1: "includes_str (toLowerCase ''likes tea'') (toLowerCase ''tea'')" by code_simp
  have a2: "\<not> write_on_primary unreachable (newMemory [1] 0 ''likes tea'' ''u1'') (redis init)"
    by code_simp
  have a3: "\<not> search_on_primary unreachable ''u1'' (toLowerCase ''tea'') (redis tea_written)"
    by code_simp
  have a5: "length (filter (\<lambda>x. 0 \<le> time_value x)
              (sortedMatches unreachable ''tea'' ''u1'' tea_written)) \<le> 10"
    by code_simp
  have a6: "fst (searchMemories unreachable (Given ''tea'') (Given ''u1'') tea_written)
       = Inr (''Found 1 matching memories for '' @ [CHR 0x22] @ ''tea'' @ [CHR 0x22] @ '':''
              @ [CHR 0x0A, CHR 0x0A] @ ''1. [1970-01-01] likes tea'')"
    by code_simp
  have b1: "includes_str (toLowerCase ''Quinn loves OCaml'') (toLowerCase ''ocaml'')"
    by code_simp
  have b2: "write_on_primary healthy (newMemory [2] 0 ''Quinn loves OCaml'' ''u1'') (redis init)"
    by code_simp
  have b3: "search_on_primary healthy ''u1'' (toLowerCase ''ocaml'') (redis ocaml_written)"
    by code_simp
  have b5: "length (filter (\<lambda>x. 0 \<le> time_value x)
              (sortedMatches healthy ''ocaml'' ''u1'' ocaml_written)) \<le> 10"
    by code_simp
  have a7: "write_on_primary unreachable (newMemory [1] 0 ''likes tea'' ''u1'') (redis init)
              = search_on_primary unreachable ''u1'' (toLowerCase ''tea'') (redis tea_written)"
    using a2 a3 by simp
  have b7: "write_on_primary healthy (newMemory [2] 0 ''Quinn loves OCaml'' ''u1'') (redis init)
              = search_on_primary healthy ''u1'' (toLowerCase ''ocaml'') (redis ocaml_written)"
    using b2 b3 by simp
  note t1 = add_then_search_finds [OF r a1 tea_written_def a7 refl a5]
  note t2 = add_then_search_finds [OF r b1 ocaml_written_def b7 refl b5]
  show ?thesis using r a1 a2 a3 a5 a6 b1 b2 b3 t1 t2 by blast
qed

text \<open>
  Ten memories that match \<open>tea\<close> carry the timestamp of the new memory \<open>likes tea\<close>,
  written after them in the same millisecond: the stable sort leaves it in eleventh place,
  and the digest of the search that follows at once does not contain it.
\<close>

theorem add_then_search_truncated_counterexample:
  "reachable eleventh_tea
   \<and> fst (searchMemories unreachable (Given ''tea'') (Given ''u1'') eleventh_tea)
     = Inr (''Found 11 matching memories for '' @ [CHR 0x22] @ ''tea'' @ [CHR 0x22] @ '':''
            @ [CHR 0x0A, CHR 0x0A] @ ''1. [1970-01-02] green tea''
            @ [CHR 0x0A, CHR 0x0A] @ ''2. [1970-01-02] green tea''
            @ [CHR 0x0A, CHR 0x0A] @ ''3. [1970-01-02] green tea''
            @ [CHR 0x0A, CHR 0x0A] @ ''4. [1970-01-02] green tea''
            @ [CHR 0x0A, CHR 0x0A] @ ''5. [1970-01-02] green tea''
            @ [CHR 0x0A, CHR 0x0A] @ ''6. [1970-01-02] green tea''
            @ [CHR 0x0A, CHR 0x0A] @ ''7. [1970-01-02] green tea''
            @ [CHR 0x0A, CHR 0x0A] @ ''8. [1970-01-02] green tea''
            @ [CHR 0x0A, CHR 0x0A] @ ''9. [1970-01-02] green tea''
            @ [CHR 0x0A, CHR 0x0A] @ ''10. [1970-01-02] green tea'')
   \<and> \<not> includes_str
         (''Found 11 matching memories for '' @ [CHR 0x22] @ ''tea'' @ [CHR 0x22] @ '':''
            @ [CHR 0x0A, CHR 0x0A] @ ''1. [1970-01-02] green tea''
            @ [CHR 0x0A, CHR 0x0A] @ ''2. [1970-01-02] green tea''
            @ [CHR 0x0A, CHR 0x0A] @ ''3. [1970-01-02] green tea''
            @ [CHR 0x0A, CHR 0x0A] @ ''4. [1970-01-02] green tea''
            @ [CHR 0x0A, CHR 0x0A] @ ''5. [1970-01-02] green tea''
            @ [CHR 0x0A, CHR 0x0A] @ ''6. [1970-01-02] green tea''
            @ [CHR 0x0A, CHR 0x0A] @ ''7. [1970-01-02] green tea''
            @ [CHR 0x0A, CHR 0x0A] @ ''8. [1970-01-02] green tea''
            @ [CHR 0x0A, CHR 0x0A] @ ''9. [1970-01-02] green tea''
            @ [CHR 0x0A, CHR 0x0A] @ ''10. [1970-01-02] green tea'')
         ''likes tea''"
proof -
  have r: "reachable eleventh_tea"
    unfolding eleventh_tea_def ten_teas_def
    by (intro reachable.add reachable_add_each reachable.start)
  have e: "fst (searchMemories unreachable (Given ''tea'') (Given ''u1'') eleventh_tea)
     = Inr (''Found 11 matching memories for '' @ [CHR 0x22] @ ''tea'' @ [CHR 0x22] @ '':''
            @ [CHR 0x0A, CHR 0x0A] @ ''1. [1970-01-02] green tea''
            @ [CHR 0x0A, CHR 0x0A] @ ''2. [1970-01-02] green tea''
            @ [CHR 0x0A, CHR 0x0A] @ ''3. [1970-01-02] green tea''
            @ [CHR 0x0A, CHR 0x0A] @ ''4. [1970-01-02] green tea''
            @ [CHR 0x0A, CHR 0x0A] @ ''5. [1970-01-02] green tea''
            @ [CHR 0x0A, CHR 0x0A] @ ''6. [1970-01-02] green tea''
            @ [CHR 0x0A, CHR 0x0A] @ ''7. [1970-01-02] green tea''
            @ [CHR 0x0A, CHR 0x0A] @ ''8. [1970-01-02] green tea''
            @ [CHR 0x0A, CHR 0x0A] @ ''9. [1970-01-02] green tea''
            @ [CHR 0x0A, CHR 0x0A] @ ''10. [1970-01-02] green tea'')
   \<and> \<not> includes_str
         (''Found 11 matching memories for '' @ [CHR 0x22] @ ''tea'' @ [CHR 0x22] @ '':''
            @ [CHR 0x0A, CHR 0x0A] @ ''1. [1970-01-02] green tea''
            @ [CHR 0x0A, CHR 0x0A] @ ''2. [1970-01-02] green tea''
            @ [CHR 0x0A, CHR 0x0A] @ ''3. [1970-01-02] green tea''
            @ [CHR 0x0A, CHR 0x0A] @ ''4. [1970-01-02] green tea''
            @ [CHR 0x0A, CHR 0x0A] @ ''5. [1970-01-02] green tea''
            @ [CHR 0x0A, CHR 0x0A] @ ''6. [1970-01-02] green tea''
            @ [CHR 0x0A, CHR 0x0A] @ ''7. [1970-01-02] green tea''
            @ [CHR 0x0A, CHR 0x0A] @ ''8. [1970-01-02] green tea''
            @ [CHR 0x0A, CHR 0x0A] @ ''9. [1970-01-02] green tea''
            @ [CHR 0x0A, CHR 0x0A] @ ''10. [1970-01-02] green tea'')
         ''likes tea''"
    by code_simp
  show ?thesis using r e by blast
qed

text \<open>
  C4, as the code has it. A call without userId is the call with the userId
  \<open>quinn_may\<close>: same reply, same state. In every state the server reaches, the memory
  is then found by a search under the default userId, omitted or given, on the
  conditions of the previous theorem. The default replaces an absent userId only: the
  empty string is a valid userId and is kept.
\<close>

theorem default_userId:
  assumes "reachable s"
    and "userId_arg' = Absent \<or> userId_arg' = Given ''quinn_may''"
    and "includes_str (toLowerCase c) (toLowerCase query)"
    and "s' = snd (addMemory rnd now fails (Given c) Absent s)"
    and "write_on_primary fails (newMemory rnd now c ''quinn_may'') (redis s)
           = search_on_primary fails' ''quinn_may'' (toLowerCase query) (redis s')"
    and "ms = sortedMatches fails' query ''quinn_may'' s'"
    and "length (filter (\<lambda>x. now \<le> time_value x) ms) \<le> 10"
  shows "addMemory rnd now fails (Given c) Absent s
           = addMemory rnd now fails (Given c) (Given ''quinn_may'') s
       \<and> (\<exists>text. fst (searchMemories fails' (Given query) userId_arg' s') = Inr text
                  \<and> includes_str text c)
       \<and> schema_parse (Given c) (Given []) = Inr (c, [])"
proof -
  have a: "schema_parse (Given c) Absent = Inr (c, ''quinn_may'')"
    by (simp add: schema_parse_def z_string_def z_string_default_def)
  have a': "schema_parse (Given c) (Given ''quinn_may'') = Inr (c, ''quinn_may'')"
    by (simp add: schema_parse_def z_string_def z_string_default_def)
  have q: "schema_parse (Given query) userId_arg' = Inr (query, ''quinn_may'')"
    using assms(2) by (auto simp: schema_parse_def z_string_def z_string_default_def)
  have "reachable s'" using assms(1,4) by (simp add: reachable.add)
  then have v: "valid_dates ms"
    using reachable_sorted_valid_dates assms(6) by simp
  have 1: "addMemory rnd now fails (Given c) Absent s
             = addMemory rnd now fails (Given c) (Given ''quinn_may'') s"
    by (simp add: addMemory_def a a')
  have 2: "\<exists>text. fst (searchMemories fails' (Given query) userId_arg' s') = Inr text
                  \<and> includes_str text c"
    by (rule add_then_search_found [OF a q assms(3-6) v assms(7)])
  have 3: "schema_parse (Given c) (Given []) = Inr (c, [])"
    by (simp add: schema_parse_def z_string_def z_string_default_def)
  show ?thesis using 1 2 3 by blast
qed

text \<open>
  A write without userId is found by a search without userId, and not by a search for
  another user.
\<close>

theorem default_userId_witness:
  "reachable init
   \<and> includes_str (toLowerCase ''likes tea'') (toLowerCase ''tea'')
   \<and> write_on_primary healthy (newMemory [1] 0 ''likes tea'' ''quinn_may'') (redis init)
   \<and> search_on_primary healthy ''quinn_may'' (toLowerCase ''tea'') (redis default_written)
   \<and> length (filter (\<lambda>x. 0 \<le> time_value x)
               (sortedMatches healthy ''tea'' ''quinn_may'' default_written)) \<le> 10
   \<and> map userId (sortedMatches healthy ''tea'' ''quinn_may'' default_written) = [''quinn_may'']
   \<and> (\<exists>text. fst (searchMemories healthy (Given ''tea'') Absent default_written) = Inr text
               \<and> includes_str text ''likes tea'')
   \<and> fst (searchMemories healthy (Given ''tea'') (Given ''u1'') default_written)
       = Inr (''No memories found for query: '' @ [CHR 0x22] @ ''tea'' @ [CHR 0x22])"
proof -
  have r: "reachable init" by (rule reachable.start)
  have a1: "includes_str (toLowerCase ''likes tea'') (toLowerCase ''tea'')" by code_simp
  have a2: "write_on_primary healthy (newMemory [1] 0 ''likes tea'' ''quinn_may'') (redis init)"
    by code_simp
  have a3: "search_on_primary healthy ''quinn_may'' (toLowerCase ''tea'') (redis default_written)"
    by code_simp
  have a5: "length (filter (\<lambda>x. 0 \<le> time_value x)
               (sortedMatches healthy ''tea'' ''quinn_may'' default_written)) \<le> 10"
    by code_simp
  have a6: "map userId (sortedMatches healthy ''tea'' ''quinn_may'' default_written)
              = [''quinn_may'']"
    by code_simp
  have a7: "fst (searchMemories healthy (Given ''tea'') (Given ''u1'') default_written)
       = Inr (''No memories found for query: '' @ [CHR 0x22] @ ''tea'' @ [CHR 0x22])"
    by code_simp
  have a8: "write_on_primary healthy (newMemory [1] 0 ''likes tea'' ''quinn_may'') (redis init)
              = search_on_primary healthy ''quinn_may'' (toLowerCase ''tea'') (redis default_written)"
    using a2 a3 by simp
  have a9: "Absent = Absent \<or> Absent = Given ''quinn_may''" by simp
  note t = default_userId [OF r a9 a1 default_written_def a8 refl a5]
  show ?thesis using r a1 a2 a3 a5 a6 a7 t by blast
qed

text \<open>
  A write with the empty userId is stored under the empty userId, and the search under
  the default userId does not find it.
\<close>

theorem empty_userId_counterexample:
  "reachable empty_written
   \<and> map userId (sortedMatches healthy ''tea'' [] empty_written) = [[]]
   \<and> fst (searchMemories healthy (Given ''tea'') Absent empty_written)
       = Inr (''No memories found for query: '' @ [CHR 0x22] @ ''tea'' @ [CHR 0x22])
   \<and> fst (searchMemories healthy (Given ''tea'') (Given ''quinn_may'') empty_written)
       = Inr (''No memories found for query: '' @ [CHR 0x22] @ ''tea'' @ [CHR 0x22])"
proof -
  have r: "reachable empty_written"
    unfolding empty_written_def by (intro reachable.add reachable.start)
  have e: "map userId (sortedMatches healthy ''tea'' [] empty_written) = [[]]
   \<and> fst (searchMemories healthy (Given ''tea'') Absent empty_written)
       = Inr (''No memories found for query: '' @ [CHR 0x22] @ ''tea'' @ [CHR 0x22])
   \<and> fst (searchMemories healthy (Given ''tea'') (Given ''quinn_may'') empty_written)
       = Inr (''No memories found for query: '' @ [CHR 0x22] @ ''tea'' @ [CHR 0x22])"
    by code_simp
  show ?thesis using r e by blast
qed

end
